theory Spec2Isabelle
  imports Complex_Main "HOL-Library.Product_Lexorder" "HOL-Library.Multiset"
begin

section \<open>Sorting receipt images by date and laying them out in a PDF\<close>

text \<open>
  A shallow embedding of \<^verbatim>\<open>create_pdf_from_sorted_img.py\<close>: the function
  \<^verbatim>\<open>crop_img_n_get_date\<close> (timestamp extraction, crop window, resize, sort) and the
  function \<^verbatim>\<open>create_pdf\<close> (one page per week, two columns). Exceptions of the Python
  code are values of \<open>py_error\<close>; a function that can raise returns \<open>py_error + 'a\<close>.
\<close>

subsection \<open>Python exceptions\<close>

datatype py_error = IndexError | ValueError | AttributeError | CvError | FileNotFoundError

subsection \<open>Regular expressions of the \<^verbatim>\<open>re\<close> module\<close>

text \<open>
  The constructs that the two patterns of \<^verbatim>\<open>main_caller\<close> and the patterns of
  \<^verbatim>\<open>datetime.strptime\<close> are built from. A character of a text is a code point from
  0 to 255; the classes \<^verbatim>\<open>\d\<close>, \<^verbatim>\<open>\s\<close> and \<^verbatim>\<open>\w\<close> and the folding of case are those
  of Python for a pattern of type \<^verbatim>\<open>str\<close> on these code points: beyond ASCII, the
  no-break space and the next-line control are white space, and the letters, the ordinal
  indicators, the micro sign, the superscript digits and the vulgar fractions of Latin-1
  are word characters. Matching is by backtracking: \<open>rx_match\<close> returns every way the expression can match
  from a position, in the order in which the backtracking matcher tries them, so the head
  of the list is the match that \<^verbatim>\<open>re\<close> reports. A match state is the position reached
  and the named groups captured so far.
\<close>

datatype rx =
    Eps
  | Lit char
  | Digit
  | Space
  | Range char char
  | WordB
  | Seq rx rx
  | Alt rx rx
  | Opt rx
  | Plus rx
  | Group string rx

type_synonym mstate = "nat \<times> (string \<times> string) list"

definition is_digit :: "char \<Rightarrow> bool" where
  "is_digit c = (c \<in> set ''0123456789'')"

definition is_space :: "char \<Rightarrow> bool" where
  "is_space c = (c \<in> set [CHR '' '', CHR 0x09, CHR 0x0A, CHR 0x0B, CHR 0x0C, CHR 0x0D,
                            CHR 0x1C, CHR 0x1D, CHR 0x1E, CHR 0x1F, CHR 0x85, CHR 0xA0])"

definition is_word :: "char \<Rightarrow> bool" where
  "is_word c =
     (c \<in> set ''abcdefghijklmnopqrstuvwxyzABCDEFGHIJKLMNOPQRSTUVWXYZ0123456789_'' \<or>
      c \<in> set [CHR 0xAA, CHR 0xB2, CHR 0xB3, CHR 0xB5, CHR 0xB9, CHR 0xBA, CHR 0xBC, CHR 0xBD,
                 CHR 0xBE] \<or>
      ((192::nat) \<le> of_char c \<and> c \<noteq> CHR 0xD7 \<and> c \<noteq> CHR 0xF7))"

definition lower :: "char \<Rightarrow> char" where
  "lower c =
     (if ((65::nat) \<le> of_char c \<and> of_char c \<le> (90::nat)) \<or>
         ((192::nat) \<le> of_char c \<and> of_char c \<le> (222::nat) \<and> c \<noteq> CHR 0xD7)
      then char_of (of_char c + (32::nat)) else c)"

definition char_eq :: "bool \<Rightarrow> char \<Rightarrow> char \<Rightarrow> bool" where
  "char_eq ic a b = (if ic then lower a = lower b else a = b)"

definition substring :: "string \<Rightarrow> nat \<Rightarrow> nat \<Rightarrow> string" where
  "substring t p q = take (q - p) (drop p t)"

definition word_boundary :: "string \<Rightarrow> nat \<Rightarrow> bool" where
  "word_boundary t p =
     ((0 < p \<and> p \<le> length t \<and> is_word (t ! (p - 1))) \<noteq> (p < length t \<and> is_word (t ! p)))"

text \<open>Greedy repetition, one or more times; an iteration that consumes nothing ends it.\<close>

fun rx_plus :: "(mstate \<Rightarrow> mstate list) \<Rightarrow> nat \<Rightarrow> mstate \<Rightarrow> mstate list" where
  "rx_plus f 0 st = []"
| "rx_plus f (Suc n) st =
     concat (map (\<lambda>st'. (if fst st < fst st' then rx_plus f n st' else []) @ [st']) (f st))"

primrec rx_match :: "bool \<Rightarrow> rx \<Rightarrow> string \<Rightarrow> mstate \<Rightarrow> mstate list" where
  "rx_match ic Eps t st = [st]"
| "rx_match ic (Lit c) t st =
     (if fst st < length t \<and> char_eq ic (t ! fst st) c then [(Suc (fst st), snd st)] else [])"
| "rx_match ic Digit t st =
     (if fst st < length t \<and> is_digit (t ! fst st) then [(Suc (fst st), snd st)] else [])"
| "rx_match ic Space t st =
     (if fst st < length t \<and> is_space (t ! fst st) then [(Suc (fst st), snd st)] else [])"
| "rx_match ic (Range a b) t st =
     (if fst st < length t \<and> (of_char a :: nat) \<le> of_char (t ! fst st)
         \<and> (of_char (t ! fst st) :: nat) \<le> of_char b
      then [(Suc (fst st), snd st)] else [])"
| "rx_match ic WordB t st = (if word_boundary t (fst st) then [st] else [])"
| "rx_match ic (Seq a b) t st = concat (map (rx_match ic b t) (rx_match ic a t st))"
| "rx_match ic (Alt a b) t st = rx_match ic a t st @ rx_match ic b t st"
| "rx_match ic (Opt a) t st = rx_match ic a t st @ [st]"
| "rx_match ic (Plus a) t st = rx_plus (rx_match ic a t) (Suc (length t)) st"
| "rx_match ic (Group n a) t st =
     map (\<lambda>st'. (fst st', (n, substring t (fst st) (fst st')) # snd st')) (rx_match ic a t st)"

definition lits :: "string \<Rightarrow> rx" where
  "lits s = foldr (\<lambda>c r. Seq (Lit c) r) s Eps"

definition seqs :: "rx list \<Rightarrow> rx" where
  "seqs rs = foldr Seq rs Eps"

text \<open>
  \<^verbatim>\<open>re.search\<close>: the first position, from the left, at which the expression matches;
  the result is the start and the end of the match (\<^verbatim>\<open>None\<close> when there is none).
\<close>

fun search_from :: "rx \<Rightarrow> string \<Rightarrow> nat \<Rightarrow> nat \<Rightarrow> (nat \<times> nat) option" where
  "search_from r t p 0 = None"
| "search_from r t p (Suc n) =
     (case rx_match False r t (p, []) of
        [] \<Rightarrow> search_from r t (Suc p) n
      | st # _ \<Rightarrow> Some (p, fst st))"

definition re_search :: "rx \<Rightarrow> string \<Rightarrow> (nat \<times> nat) option" where
  "re_search r t = search_from r t 0 (Suc (length t))"

text \<open>
  \<^verbatim>\<open>re.findall\<close> for an expression without capturing groups: the texts of the
  successive matches, each search starting where the previous match ended (one further
  after an empty match).
\<close>

fun findall_from :: "rx \<Rightarrow> string \<Rightarrow> nat \<Rightarrow> nat \<Rightarrow> string list" where
  "findall_from r t p 0 = []"
| "findall_from r t p (Suc n) =
     (case search_from r t p (Suc (length t) - p) of
        None \<Rightarrow> []
      | Some (s, e) \<Rightarrow> substring t s e # findall_from r t (if e = s then Suc e else e) n)"

definition re_findall :: "rx \<Rightarrow> string \<Rightarrow> string list" where
  "re_findall r t = findall_from r t 0 (Suc (length t))"

text \<open>
  The two patterns of \<^verbatim>\<open>main_caller\<close>:
  \<^verbatim>\<open>\b\d{1,2}/\d{1,2}/\d{2}(?:\d{2})?, \d{1,2}:\d{2}(?::\d{2})?(?: AM| PM)?\b\<close> and
  \<^verbatim>\<open>(Your ride|You rated|Yourated)\<close>.
\<close>

definition digits_1_2 :: rx where
  "digits_1_2 = Seq Digit (Opt Digit)"

definition digits_2 :: rx where
  "digits_2 = Seq Digit Digit"

definition date_time_regex :: rx where
  "date_time_regex =
     seqs [WordB, digits_1_2, Lit CHR ''/'', digits_1_2, Lit CHR ''/'', digits_2, Opt digits_2,
           lits '', '', digits_1_2, Lit CHR '':'', digits_2, Opt (Seq (Lit CHR '':'') digits_2),
           Opt (Alt (lits '' AM'') (lits '' PM'')), WordB]"

definition img_crop_end_regex :: rx where
  "img_crop_end_regex = Alt (lits ''Your ride'') (Alt (lits ''You rated'') (lits ''Yourated''))"

subsection \<open>Dates and times\<close>

text \<open>
  A \<^verbatim>\<open>datetime\<close> value. The formats of this program set neither seconds nor
  microseconds, which are 0 in every value it builds; values are compared field by field
  from the year down, which \<open>dt_key\<close> spells out.
\<close>

record datetime =
  year :: int
  month :: int
  day :: int
  hour :: int
  minute :: int

definition dt_key :: "datetime \<Rightarrow> int \<times> int \<times> int \<times> int \<times> int" where
  "dt_key d = (year d, month d, day d, hour d, minute d)"

definition is_leap :: "int \<Rightarrow> bool" where
  "is_leap y = (y mod 4 = 0 \<and> (y mod 100 \<noteq> 0 \<or> y mod 400 = 0))"

definition days_in_month :: "int \<Rightarrow> int \<Rightarrow> int" where
  "days_in_month y m =
     (if m = 2 \<and> is_leap y then 29
      else [31, 28, 31, 30, 31, 30, 31, 31, 30, 31, 30, 31] ! nat (m - 1))"

definition days_before_year :: "int \<Rightarrow> int" where
  "days_before_year y = (y - 1) * 365 + (y - 1) div 4 - (y - 1) div 100 + (y - 1) div 400"

definition days_before_month :: "int \<Rightarrow> int \<Rightarrow> int" where
  "days_before_month y m =
     [0, 31, 59, 90, 120, 151, 181, 212, 243, 273, 304, 334] ! nat (m - 1)
       + (if m > 2 \<and> is_leap y then 1 else 0)"

definition toordinal :: "datetime \<Rightarrow> int" where
  "toordinal d = days_before_year (year d) + days_before_month (year d) (month d) + day d"

definition digit_char :: "nat \<Rightarrow> char" where
  "digit_char n = ''0123456789'' ! (n mod 10)"

fun show_nat_aux :: "nat \<Rightarrow> nat \<Rightarrow> string \<Rightarrow> string" where
  "show_nat_aux 0 n acc = acc"
| "show_nat_aux (Suc f) n acc =
     (if n < 10 then digit_char n # acc else show_nat_aux f (n div 10) (digit_char n # acc))"

text \<open>\<^verbatim>\<open>str(n)\<close> for a natural number.\<close>

definition str_nat :: "nat \<Rightarrow> string" where
  "str_nat n = show_nat_aux (Suc n) n []"

definition pad2 :: "nat \<Rightarrow> string" where
  "pad2 n = (if n < 10 then CHR ''0'' # str_nat n else str_nat n)"

text \<open>
  \<^verbatim>\<open>strftime("%U")\<close>: the week of the year, weeks starting on Sunday, the days before
  the first Sunday in week 0; two digits. The day of the week counted from Sunday is the
  ordinal modulo 7.
\<close>

definition strftime_U :: "datetime \<Rightarrow> string" where
  "strftime_U d =
     (let yday = days_before_month (year d) (month d) + day d - 1;
          wday = toordinal d mod 7
      in pad2 (nat ((yday + 7 - wday) div 7)))"

definition month_name :: "int \<Rightarrow> string" where
  "month_name m =
     [''January'', ''February'', ''March'', ''April'', ''May'', ''June'', ''July'',
      ''August'', ''September'', ''October'', ''November'', ''December''] ! nat (m - 1)"

text \<open>\<^verbatim>\<open>strftime("%B %d, %Y")\<close>.\<close>

definition strftime_BdY :: "datetime \<Rightarrow> string" where
  "strftime_BdY d =
     month_name (month d) @ '' '' @ pad2 (nat (day d)) @ '', '' @ str_nat (nat (year d))"

subsection \<open>\<^verbatim>\<open>datetime.strptime\<close>\<close>

text \<open>
  As CPython implements it: the format is turned into a regular expression, a run of
  white space becoming \<^verbatim>\<open>\s+\<close> and each directive a named group; the expression is
  matched, ignoring case, at the start of the string and must consume all of it; the
  groups are converted to numbers; a day that the month does not have is an error.
  Every failure is a \<^verbatim>\<open>ValueError\<close>. The locale is the C (English) one.
\<close>

definition directive :: "char \<Rightarrow> rx option" where
  "directive c =
     (if c = CHR ''d'' then
        Some (Group ''d'' (Alt (Seq (Lit CHR ''3'') (Range CHR ''0'' CHR ''1''))
                         (Alt (Seq (Range CHR ''1'' CHR ''2'') Digit)
                         (Alt (Seq (Lit CHR ''0'') (Range CHR ''1'' CHR ''9''))
                         (Alt (Range CHR ''1'' CHR ''9'')
                              (Seq (Lit CHR '' '') (Range CHR ''1'' CHR ''9'')))))))
      else if c = CHR ''H'' then
        Some (Group ''H'' (Alt (Seq (Lit CHR ''2'') (Range CHR ''0'' CHR ''3''))
                         (Alt (Seq (Range CHR ''0'' CHR ''1'') Digit) Digit)))
      else if c = CHR ''I'' then
        Some (Group ''I'' (Alt (Seq (Lit CHR ''1'') (Range CHR ''0'' CHR ''2''))
                         (Alt (Seq (Lit CHR ''0'') (Range CHR ''1'' CHR ''9''))
                              (Range CHR ''1'' CHR ''9''))))
      else if c = CHR ''m'' then
        Some (Group ''m'' (Alt (Seq (Lit CHR ''1'') (Range CHR ''0'' CHR ''2''))
                         (Alt (Seq (Lit CHR ''0'') (Range CHR ''1'' CHR ''9''))
                              (Range CHR ''1'' CHR ''9''))))
      else if c = CHR ''M'' then
        Some (Group ''M'' (Alt (Seq (Range CHR ''0'' CHR ''5'') Digit) Digit))
      else if c = CHR ''y'' then
        Some (Group ''y'' (Seq Digit Digit))
      else if c = CHR ''p'' then
        Some (Group ''p'' (Alt (lits ''am'') (lits ''pm'')))
      else None)"

fun time_re :: "bool \<Rightarrow> string \<Rightarrow> rx option" where
  "time_re ws [] = Some Eps"
| "time_re ws [c] =
     (if c = CHR ''%'' then None
      else if is_space c then (if ws then Some Eps else Some (Seq (Plus Space) Eps))
      else Some (Seq (Lit c) Eps))"
| "time_re ws (c # d # cs) =
     (if c = CHR ''%'' then
        (case directive d of
           None \<Rightarrow> None
         | Some r \<Rightarrow> map_option (Seq r) (time_re False cs))
      else if is_space c then
        (if ws then time_re True (d # cs)
         else map_option (Seq (Plus Space)) (time_re True (d # cs)))
      else map_option (Seq (Lit c)) (time_re False (d # cs)))"

text \<open>\<^verbatim>\<open>int(s)\<close> for a string of digits, leading blanks skipped.\<close>

definition py_int :: "string \<Rightarrow> int" where
  "py_int s = foldl (\<lambda>n c. 10 * n + (of_char c - 48)) 0 (dropWhile is_space s)"

definition strptime_fields :: "(string \<times> string) list \<Rightarrow> py_error + datetime" where
  "strptime_fields groups =
     (let y = (case map_of groups ''y'' of
                 None \<Rightarrow> 1900
               | Some s \<Rightarrow> (if py_int s \<le> 68 then py_int s + 2000 else py_int s + 1900));
          m = (case map_of groups ''m'' of None \<Rightarrow> 1 | Some s \<Rightarrow> py_int s);
          d = (case map_of groups ''d'' of None \<Rightarrow> 1 | Some s \<Rightarrow> py_int s);
          ampm = (case map_of groups ''p'' of None \<Rightarrow> [] | Some s \<Rightarrow> map lower s);
          h = (case map_of groups ''H'' of
                 Some s \<Rightarrow> py_int s
               | None \<Rightarrow>
                   (case map_of groups ''I'' of
                      None \<Rightarrow> 0
                    | Some s \<Rightarrow>
                        (if ampm = [] \<or> ampm = ''am''
                         then (if py_int s = 12 then 0 else py_int s)
                         else (if py_int s \<noteq> 12 then py_int s + 12 else py_int s))));
          mi = (case map_of groups ''M'' of None \<Rightarrow> 0 | Some s \<Rightarrow> py_int s)
      in if 1 \<le> m \<and> m \<le> 12 \<and> 1 \<le> d \<and> d \<le> days_in_month y m
         then Inr \<lparr>year = y, month = m, day = d, hour = h, minute = mi\<rparr>
         else Inl ValueError)"

definition strptime :: "string \<Rightarrow> string \<Rightarrow> py_error + datetime" where
  "strptime data_string format =
     (case time_re False format of
        None \<Rightarrow> Inl ValueError
      | Some r \<Rightarrow>
          (case rx_match True r data_string (0, []) of
             [] \<Rightarrow> Inl ValueError
           | found # _ \<Rightarrow>
               (if fst found \<noteq> length data_string then Inl ValueError
                else strptime_fields (snd found))))"

text \<open>
  Lines 113 to 120: the three formats, each tried only when the one before it raised.
\<close>

definition parse_datetime :: "string \<Rightarrow> py_error + datetime" where
  "parse_datetime datetime_str =
     (case strptime datetime_str ''%m/%d/%y, %I:%M %p'' of
        Inr datetime_obj \<Rightarrow> Inr datetime_obj
      | Inl _ \<Rightarrow>
          (case strptime datetime_str ''%d/%m/%y, %I:%M %p'' of
             Inr datetime_obj \<Rightarrow> Inr datetime_obj
           | Inl _ \<Rightarrow> strptime datetime_str ''%d/%m/%y, %H:%M''))"

subsection \<open>The crop window (lines 129 to 148 of the source)\<close>

text \<open>
  \<open>start\<close> and \<open>end\<close> are the character offsets of the timestamp match and of the
  terminator match in the OCR text; the result is the pair of row bounds that the source
  writes into the slice \<^verbatim>\<open>img[lo:hi, :]\<close>.
\<close>

definition crop_window :: "nat \<Rightarrow> nat \<Rightarrow> int \<times> int" where
  "crop_window start end =
     (if start < 5 then (int start, int end + 900)
      else if start > 10 \<and> start < 45 then (int start + 600, int end + 1250)
      else if start \<ge> 50 then (int start + 700, int end + 1200)
      else (int start, int end + 700))"

subsection \<open>Slices, cropping and resizing\<close>

text \<open>
  A Python slice \<^verbatim>\<open>xs[lo:hi]\<close>: a negative bound counts from the end, and a bound
  beyond either end of the sequence is moved to that end.
\<close>

definition adjust_index :: "int \<Rightarrow> nat \<Rightarrow> nat" where
  "adjust_index i n =
     (if i < 0 then (if i + int n < 0 then 0 else nat (i + int n))
      else if i \<ge> int n then n else nat i)"

definition py_slice :: "'a list \<Rightarrow> int \<Rightarrow> int \<Rightarrow> 'a list" where
  "py_slice xs lo hi =
     (let a = adjust_index lo (length xs); b = adjust_index hi (length xs)
      in take (b - a) (drop a xs))"

text \<open>
  A raster is known by its shape, (rows, columns). \<^verbatim>\<open>img[lo:hi, :]\<close> keeps the rows
  of the slice and every column. \<^verbatim>\<open>cv2.resize(src, (width, height))\<close> raises on an
  empty source and otherwise returns a raster of \<open>height\<close> rows and \<open>width\<close> columns.
\<close>

definition crop_rows :: "nat \<times> nat \<Rightarrow> int \<Rightarrow> int \<Rightarrow> nat \<times> nat" where
  "crop_rows img lo hi = (adjust_index hi (fst img) - adjust_index lo (fst img), snd img)"

definition cv2_resize :: "nat \<times> nat \<Rightarrow> nat \<times> nat \<Rightarrow> py_error + nat \<times> nat" where
  "cv2_resize src dsize =
     (if fst src = 0 \<or> snd src = 0 \<or> fst dsize = 0 \<or> snd dsize = 0 then Inl CvError
      else Inr (snd dsize, fst dsize))"

definition crop_and_resize :: "nat \<times> nat \<Rightarrow> nat \<Rightarrow> nat \<Rightarrow> py_error + nat \<times> nat" where
  "crop_and_resize img start end =
     (let cropped_img = crop_rows img (fst (crop_window start end)) (snd (crop_window start end))
      in cv2_resize cropped_img (700, 300))"

subsection \<open>\<^verbatim>\<open>crop_img_n_get_date\<close>\<close>

text \<open>
  A file of the images directory: its joined path, the shape of the raster that
  \<^verbatim>\<open>cv2.imread\<close> returns for it and the text that the OCR engine returns for that
  raster. The state of the loop is \<^verbatim>\<open>image_data_list\<close> and the files written back
  by \<^verbatim>\<open>cv2.imwrite\<close>, a map from paths to shapes.
\<close>

record img_file =
  file_path :: string
  shape :: "nat \<times> nat"
  ocr_text :: string

type_synonym disk = "string \<rightharpoonup> nat \<times> nat"

definition crop_one ::
  "rx \<Rightarrow> rx \<Rightarrow> img_file \<Rightarrow> (string \<times> datetime) list \<times> disk
     \<Rightarrow> py_error + (string \<times> datetime) list \<times> disk" where
  "crop_one date_time_rx img_crop_end_rx f st =
     (let filename = file_path f;
          text = ocr_text f;
          matches = re_findall date_time_rx text;
          datetime_str = (if matches \<noteq> [] then hd matches else [])
      in case (if datetime_str \<noteq> []
               then (case parse_datetime datetime_str of
                       Inl e \<Rightarrow> Inl e
                     | Inr datetime_obj \<Rightarrow> Inr (fst st @ [(filename, datetime_obj)]))
               else Inr (fst st)) of
           Inl e \<Rightarrow> Inl e
         | Inr image_data_list \<Rightarrow>
             (case re_search date_time_rx text of
                None \<Rightarrow> Inl AttributeError
              | Some start \<Rightarrow>
                  (case re_search img_crop_end_rx text of
                     None \<Rightarrow> Inl AttributeError
                   | Some end \<Rightarrow>
                       (case crop_and_resize (shape f) (fst start) (fst end) of
                          Inl e \<Rightarrow> Inl e
                        | Inr resized_img \<Rightarrow>
                            Inr (image_data_list, (snd st)(filename \<mapsto> resized_img))))))"

fun crop_loop ::
  "rx \<Rightarrow> rx \<Rightarrow> img_file list \<Rightarrow> (string \<times> datetime) list \<times> disk
     \<Rightarrow> py_error + (string \<times> datetime) list \<times> disk" where
  "crop_loop date_time_rx img_crop_end_rx [] st = Inr st"
| "crop_loop date_time_rx img_crop_end_rx (f # fs) st =
     (case crop_one date_time_rx img_crop_end_rx f st of
        Inl e \<Rightarrow> Inl e
      | Inr st' \<Rightarrow> crop_loop date_time_rx img_crop_end_rx fs st')"

text \<open>Line 157: \<^verbatim>\<open>list.sort\<close> with the key \<^verbatim>\<open>x[1]\<close>; the sort is stable.\<close>

definition sort_by_datetime :: "(string \<times> datetime) list \<Rightarrow> (string \<times> datetime) list" where
  "sort_by_datetime image_data_list = sort_key (\<lambda>x. dt_key (snd x)) image_data_list"

definition crop_img_n_get_date ::
  "rx \<Rightarrow> rx \<Rightarrow> img_file list
     \<Rightarrow> py_error + ((string \<times> datetime) list \<times> string list \<times> datetime list) \<times> disk" where
  "crop_img_n_get_date date_time_rx img_crop_end_rx files =
     (case crop_loop date_time_rx img_crop_end_rx files ([], Map.empty) of
        Inl e \<Rightarrow> Inl e
      | Inr st \<Rightarrow>
          (let image_data_list = sort_by_datetime (fst st)
           in Inr ((image_data_list, map fst image_data_list, map snd image_data_list), snd st)))"

subsection \<open>\<^verbatim>\<open>create_pdf\<close>\<close>

text \<open>
  \<^verbatim>\<open>Image.open\<close> gives the size (width, height) of the file at a path, and
  \<^verbatim>\<open>Image.thumbnail\<close> shrinks an image to fit the requested size, keeping its aspect
  ratio: of the two whole sizes next to the exact one it takes that whose aspect ratio is
  nearer to the image's. The library computes the ratios in floating point and the
  arithmetic here is exact; the two agree unless both candidates are equally near in
  exact arithmetic, where the rounding of the floats decides in the library and the
  smaller candidate is taken here. For the files of 700 by 300 that the crop step writes
  the candidates are not equally near, and both give 220 by 94.
\<close>

definition image_open :: "disk \<Rightarrow> string \<Rightarrow> py_error + nat \<times> nat" where
  "image_open files image_path =
     (case files image_path of
        None \<Rightarrow> Inl FileNotFoundError
      | Some s \<Rightarrow> Inr (snd s, fst s))"

definition round_aspect :: "rat \<Rightarrow> (int \<Rightarrow> rat) \<Rightarrow> int" where
  "round_aspect number key =
     max (if key \<lfloor>number\<rfloor> \<le> key \<lceil>number\<rceil> then \<lfloor>number\<rfloor> else \<lceil>number\<rceil>) 1"

definition thumbnail :: "nat \<times> nat \<Rightarrow> nat \<times> nat \<Rightarrow> nat \<times> nat" where
  "thumbnail sz img =
     (let x = fst sz; y = snd sz; aspect = Fract (int (fst img)) (int (snd img))
      in if x \<ge> fst img \<and> y \<ge> snd img then img
         else if Fract (int x) (int y) \<ge> aspect
         then (nat (round_aspect (of_nat y * aspect) (\<lambda>n. \<bar>aspect - Fract n (int y)\<bar>)), y)
         else (x, nat (round_aspect (of_nat x / aspect)
                        (\<lambda>n. if n = 0 then 0 else \<bar>aspect - Fract (int x) n\<bar>))))"

text \<open>Line 214: \<^verbatim>\<open>int((date.day - 1) // 7 + 1)\<close>.\<close>

definition week_index :: "datetime \<Rightarrow> int" where
  "week_index date = (day date - 1) div 7 + 1"

text \<open>\<^verbatim>\<open>list.index\<close>: the position of the first equal element, or a \<^verbatim>\<open>ValueError\<close>.\<close>

fun list_index :: "'a list \<Rightarrow> 'a \<Rightarrow> py_error + nat" where
  "list_index [] x = Inl ValueError"
| "list_index (y # ys) x =
     (if y = x then Inr 0
      else (case list_index ys x of Inl e \<Rightarrow> Inl e | Inr i \<Rightarrow> Inr (Suc i)))"

text \<open>
  A cell is what one iteration of the inner loop draws: the arguments of its
  \<^verbatim>\<open>drawString\<close> call and of its \<^verbatim>\<open>drawImage\<close> call. A page is what one iteration
  of the outer loop draws: the heading, drawn at (275, 800), and its cells. Every
  iteration but the first starts with \<^verbatim>\<open>showPage\<close>. The result of \<open>create_pdf\<close> is
  the document that \<^verbatim>\<open>save\<close> writes, or the exception that ends the function before.
\<close>

record cell =
  label_text :: string
  label_x :: int
  label_y :: int
  image_name :: string
  image_x :: int
  image_y :: int
  image_width :: nat
  image_height :: nat

record page =
  heading :: string
  cells :: "cell list"

definition draw_cell :: "disk \<Rightarrow> nat \<Rightarrow> string \<times> datetime \<Rightarrow> py_error + cell" where
  "draw_cell files idx entry =
     (let image_path = fst entry; image_date = snd entry; x_pos = 50; y_pos = 780
      in case image_open files image_path of
           Inl e \<Rightarrow> Inl e
         | Inr opened \<Rightarrow>
             (let img = thumbnail (220, 220) opened
              in if idx mod 2 = 0
                 then (let y = 65 * int idx
                       in Inr \<lparr>label_text = strftime_BdY image_date,
                               label_x = x_pos, label_y = y_pos - y,
                               image_name = image_path,
                               image_x = x_pos, image_y = y_pos - (y + 100),
                               image_width = fst img, image_height = snd img\<rparr>)
                 else (let y = 65 * (int idx - 1)
                       in Inr \<lparr>label_text = strftime_BdY image_date,
                               label_x = x_pos + 300, label_y = y_pos - y,
                               image_name = image_path,
                               image_x = x_pos + 300, image_y = y_pos - (y + 100),
                               image_width = fst img, image_height = snd img\<rparr>)))"

fun draw_cells :: "disk \<Rightarrow> (string \<times> datetime) list \<Rightarrow> nat \<Rightarrow> py_error + cell list" where
  "draw_cells files [] idx = Inr []"
| "draw_cells files (entry # rest) idx =
     (case draw_cell files idx entry of
        Inl e \<Rightarrow> Inl e
      | Inr c \<Rightarrow>
          (case draw_cells files rest (Suc idx) of
             Inl e \<Rightarrow> Inl e
           | Inr cs \<Rightarrow> Inr (c # cs)))"

definition week_specific :: "(string \<times> datetime) list \<Rightarrow> nat \<Rightarrow> string list" where
  "week_specific image_data_list i =
     map fst (filter (\<lambda>x. week_index (snd x) = int i + 1) image_data_list)"

definition draw_page ::
  "string list \<Rightarrow> (string \<times> datetime) list \<Rightarrow> disk \<Rightarrow> nat \<Rightarrow> py_error + page" where
  "draw_page image_list image_data_list files i =
     (case week_specific image_data_list i of
        [] \<Rightarrow> Inl IndexError
      | first # others \<Rightarrow>
          (case list_index image_list first of
             Inl e \<Rightarrow> Inl e
           | Inr start_index \<Rightarrow>
               (case list_index image_list (last (first # others)) of
                  Inl e \<Rightarrow> Inl e
                | Inr end_index \<Rightarrow>
                    (let page_images =
                           py_slice image_data_list (int start_index) (int end_index + 1)
                     in case draw_cells files page_images 0 of
                          Inl e \<Rightarrow> Inl e
                        | Inr cs \<Rightarrow>
                            Inr \<lparr>heading = ''Week '' @ str_nat (i + 1), cells = cs\<rparr>))))"

fun draw_pages ::
  "string list \<Rightarrow> (string \<times> datetime) list \<Rightarrow> disk \<Rightarrow> nat list \<Rightarrow> py_error + page list" where
  "draw_pages image_list image_data_list files [] = Inr []"
| "draw_pages image_list image_data_list files (i # rest) =
     (case draw_page image_list image_data_list files i of
        Inl e \<Rightarrow> Inl e
      | Inr p \<Rightarrow>
          (case draw_pages image_list image_data_list files rest of
             Inl e \<Rightarrow> Inl e
           | Inr ps \<Rightarrow> Inr (p # ps)))"

definition num_weeks :: "datetime list \<Rightarrow> nat" where
  "num_weeks date_list = card (set (map strftime_U date_list))"

definition create_pdf ::
  "string list \<Rightarrow> (string \<times> datetime) list \<Rightarrow> disk \<Rightarrow> datetime list \<Rightarrow> py_error + page list" where
  "create_pdf image_list image_data_list files date_list =
     draw_pages image_list image_data_list files [0..<num_weeks date_list]"

subsection \<open>\<^verbatim>\<open>main_caller\<close>\<close>

definition main_caller :: "img_file list \<Rightarrow> py_error + page list" where
  "main_caller files =
     (case crop_img_n_get_date date_time_regex img_crop_end_regex files of
        Inl e \<Rightarrow> Inl e
      | Inr r \<Rightarrow> create_pdf (fst (snd (fst r))) (fst (fst r)) (snd r) (snd (snd (fst r))))"

subsection \<open>A sample timeline\<close>

text \<open>
  Five receipts of January 2022, sorted: two of the first seven days of the month (a
  Monday and a Tuesday) and three of the next seven (from Sunday the 9th), with their
  files of the canonical size. The theorems below are exercised on it.
\<close>

definition sample_timeline :: "(string \<times> datetime) list" where
  "sample_timeline =
     [(''images/trip_image_4.jpg'', \<lparr>year = 2022, month = 1, day = 3, hour = 8, minute = 15\<rparr>),
      (''images/trip_image_1.jpg'', \<lparr>year = 2022, month = 1, day = 4, hour = 19, minute = 2\<rparr>),
      (''images/trip_image_5.jpg'', \<lparr>year = 2022, month = 1, day = 9, hour = 11, minute = 40\<rparr>),
      (''images/trip_image_2.jpg'', \<lparr>year = 2022, month = 1, day = 10, hour = 7, minute = 55\<rparr>),
      (''images/trip_image_3.jpg'', \<lparr>year = 2022, month = 1, day = 11, hour = 22, minute = 30\<rparr>)]"

definition sample_disk :: disk where
  "sample_disk =
     [''images/trip_image_1.jpg'' \<mapsto> (300, 700), ''images/trip_image_2.jpg'' \<mapsto> (300, 700),
      ''images/trip_image_3.jpg'' \<mapsto> (300, 700), ''images/trip_image_4.jpg'' \<mapsto> (300, 700),
      ''images/trip_image_5.jpg'' \<mapsto> (300, 700)]"

definition sample_pdf :: "py_error + page list" where
  "sample_pdf =
     create_pdf (map fst sample_timeline) sample_timeline sample_disk (map snd sample_timeline)"

section \<open>Theorems\<close>



subsection \<open>The timeline sort\<close>

lemma dt_key_inj: "dt_key a = dt_key b \<longleftrightarrow> a = b"
  by (cases a, cases b) (auto simp: dt_key_def)

text \<open>
  C9. The sort of line 157 orders the entries by timestamp alone, ascending, and is
  stable: the result is ordered by the timestamps, it holds the same entries, and for
  every timestamp the entries that carry it stand in the order they had before the sort.
  With A and B at the same time T and C one minute earlier, [A, B, C] sorts to [C, A, B].
\<close>

theorem sort_by_datetime_stable:
  "sorted (map (\<lambda>x. dt_key (snd x)) (sort_by_datetime xs)) \<and>
   mset (sort_by_datetime xs) = mset xs \<and>
   (\<forall>ts. filter (\<lambda>x. snd x = ts) (sort_by_datetime xs) = filter (\<lambda>x. snd x = ts) xs) \<and>
   sort_by_datetime
     [(''A'', \<lparr>year = 2022, month = 1, day = 25, hour = 15, minute = 45\<rparr>),
      (''B'', \<lparr>year = 2022, month = 1, day = 25, hour = 15, minute = 45\<rparr>),
      (''C'', \<lparr>year = 2022, month = 1, day = 25, hour = 15, minute = 44\<rparr>)] =
     [(''C'', \<lparr>year = 2022, month = 1, day = 25, hour = 15, minute = 44\<rparr>),
      (''A'', \<lparr>year = 2022, month = 1, day = 25, hour = 15, minute = 45\<rparr>),
      (''B'', \<lparr>year = 2022, month = 1, day = 25, hour = 15, minute = 45\<rparr>)]"
proof -
  have a: "sorted (map (\<lambda>x. dt_key (snd x)) (sort_by_datetime xs))"
    by (simp add: sort_by_datetime_def)
  have b: "mset (sort_by_datetime xs) = mset xs"
    by (simp add: sort_by_datetime_def)
  have c: "filter (\<lambda>x. snd x = ts) (sort_by_datetime xs) = filter (\<lambda>x. snd x = ts) xs" for ts
    using sort_key_stable [of "\<lambda>x. dt_key (snd x)" "dt_key ts" xs]
    by (simp add: sort_by_datetime_def dt_key_inj)
  have d: "sort_by_datetime
     [(''A'', \<lparr>year = 2022, month = 1, day = 25, hour = 15, minute = 45\<rparr>),
      (''B'', \<lparr>year = 2022, month = 1, day = 25, hour = 15, minute = 45\<rparr>),
      (''C'', \<lparr>year = 2022, month = 1, day = 25, hour = 15, minute = 44\<rparr>)] =
     [(''C'', \<lparr>year = 2022, month = 1, day = 25, hour = 15, minute = 44\<rparr>),
      (''A'', \<lparr>year = 2022, month = 1, day = 25, hour = 15, minute = 45\<rparr>),
      (''B'', \<lparr>year = 2022, month = 1, day = 25, hour = 15, minute = 45\<rparr>)]"
    by (simp add: sort_by_datetime_def dt_key_def)
  show ?thesis by (intro conjI allI a b c d)
qed

subsection \<open>The three timestamp formats\<close>

lemma strptime_day_first_24h:
  "strptime ''31/01/22, 14:00'' ''%m/%d/%y, %I:%M %p'' = Inl ValueError"
  "strptime ''31/01/22, 14:00'' ''%d/%m/%y, %I:%M %p'' = Inl ValueError"
  "strptime ''31/01/22, 14:00'' ''%d/%m/%y, %H:%M'' =
     Inr \<lparr>year = 2022, month = 1, day = 31, hour = 14, minute = 0\<rparr>"
  by code_simp+

lemma strptime_month_first:
  "strptime ''03/04/22, 1:00 PM'' ''%m/%d/%y, %I:%M %p'' =
     Inr \<lparr>year = 2022, month = 3, day = 4, hour = 13, minute = 0\<rparr>"
  by code_simp

lemma strptime_day_first_12h:
  "strptime ''13/04/22, 1:00 PM'' ''%m/%d/%y, %I:%M %p'' = Inl ValueError"
  "strptime ''13/04/22, 1:00 PM'' ''%d/%m/%y, %I:%M %p'' =
     Inr \<lparr>year = 2022, month = 4, day = 13, hour = 13, minute = 0\<rparr>"
  by code_simp+

text \<open>
  C4. The matched timestamp is parsed by three formats in strict order: month/day/year
  with a 12-hour clock and AM/PM, then day/month/year with a 12-hour clock and AM/PM,
  then day/month/year with a 24-hour clock, the year of two digits in each. The first
  format that parses gives the result: the second is tried only when the first raised,
  the third only when both raised. The string "31/01/22, 14:00" fails the first two
  formats and parses by the third.
\<close>

theorem parse_datetime_order:
  "(\<forall>d. strptime s ''%m/%d/%y, %I:%M %p'' = Inr d \<longrightarrow> parse_datetime s = Inr d) \<and>
   (\<forall>e d. strptime s ''%m/%d/%y, %I:%M %p'' = Inl e \<and> strptime s ''%d/%m/%y, %I:%M %p'' = Inr d
      \<longrightarrow> parse_datetime s = Inr d) \<and>
   (\<forall>e e'. strptime s ''%m/%d/%y, %I:%M %p'' = Inl e \<and> strptime s ''%d/%m/%y, %I:%M %p'' = Inl e'
      \<longrightarrow> parse_datetime s = strptime s ''%d/%m/%y, %H:%M'') \<and>
   strptime ''31/01/22, 14:00'' ''%m/%d/%y, %I:%M %p'' = Inl ValueError \<and>
   strptime ''31/01/22, 14:00'' ''%d/%m/%y, %I:%M %p'' = Inl ValueError \<and>
   strptime ''31/01/22, 14:00'' ''%d/%m/%y, %H:%M'' =
     Inr \<lparr>year = 2022, month = 1, day = 31, hour = 14, minute = 0\<rparr> \<and>
   parse_datetime ''31/01/22, 14:00'' =
     Inr \<lparr>year = 2022, month = 1, day = 31, hour = 14, minute = 0\<rparr>"
proof -
  have a: "\<forall>d. strptime s ''%m/%d/%y, %I:%M %p'' = Inr d \<longrightarrow> parse_datetime s = Inr d"
    by (simp add: parse_datetime_def)
  have b: "\<forall>e d. strptime s ''%m/%d/%y, %I:%M %p'' = Inl e \<and> strptime s ''%d/%m/%y, %I:%M %p'' = Inr d
      \<longrightarrow> parse_datetime s = Inr d"
    by (simp add: parse_datetime_def)
  have c: "\<forall>e e'. strptime s ''%m/%d/%y, %I:%M %p'' = Inl e \<and> strptime s ''%d/%m/%y, %I:%M %p'' = Inl e'
      \<longrightarrow> parse_datetime s = strptime s ''%d/%m/%y, %H:%M''"
    by (simp add: parse_datetime_def)
  have d: "parse_datetime ''31/01/22, 14:00'' =
     Inr \<lparr>year = 2022, month = 1, day = 31, hour = 14, minute = 0\<rparr>"
    by (simp add: parse_datetime_def strptime_day_first_24h)
  show ?thesis by (intro conjI a b c d strptime_day_first_24h)
qed

theorem parse_datetime_order_witness:
  "parse_datetime ''03/04/22, 1:00 PM'' =
     Inr \<lparr>year = 2022, month = 3, day = 4, hour = 13, minute = 0\<rparr> \<and>
   parse_datetime ''13/04/22, 1:00 PM'' =
     Inr \<lparr>year = 2022, month = 4, day = 13, hour = 13, minute = 0\<rparr> \<and>
   parse_datetime ''31/01/22, 14:00'' = strptime ''31/01/22, 14:00'' ''%d/%m/%y, %H:%M''"
proof -
  have a: "parse_datetime ''03/04/22, 1:00 PM'' =
      Inr \<lparr>year = 2022, month = 3, day = 4, hour = 13, minute = 0\<rparr>"
    by (rule parse_datetime_order [of "''03/04/22, 1:00 PM''", THEN conjunct1, rule_format,
          OF strptime_month_first])
  have b: "parse_datetime ''13/04/22, 1:00 PM'' =
      Inr \<lparr>year = 2022, month = 4, day = 13, hour = 13, minute = 0\<rparr>"
    by (rule parse_datetime_order [of "''13/04/22, 1:00 PM''", THEN conjunct2, THEN conjunct1,
          rule_format, OF conjI [OF strptime_day_first_12h]])
  have c: "parse_datetime ''31/01/22, 14:00'' = strptime ''31/01/22, 14:00'' ''%d/%m/%y, %H:%M''"
    by (rule parse_datetime_order [of "''31/01/22, 14:00''", THEN conjunct2, THEN conjunct2,
          THEN conjunct1, rule_format, OF conjI [OF strptime_day_first_24h(1,2)]])
  show ?thesis by (intro conjI a b c)
qed

subsection \<open>Cropping and resizing\<close>

lemma crop_window_nonneg: "0 \<le> fst (crop_window s e)" "0 \<le> snd (crop_window s e)"
  by (simp_all add: crop_window_def)

lemma adjust_index_nonneg: "0 \<le> i \<Longrightarrow> adjust_index i n = min (nat i) n"
  by (auto simp: adjust_index_def)

lemma crop_rows_window:
  "crop_rows img (fst (crop_window s e)) (snd (crop_window s e)) =
     (min (nat (snd (crop_window s e))) (fst img) - min (nat (fst (crop_window s e))) (fst img),
      snd img)"
  by (simp add: crop_rows_def adjust_index_nonneg crop_window_nonneg)

lemma cv2_resize_nonempty:
  "a < b \<Longrightarrow> 0 < c \<Longrightarrow> cv2_resize (b - a, c) (700, 300) = Inr (300, 700)"
  by (simp add: cv2_resize_def)

lemma crop_window_11_30: "crop_window 11 30 = (611, 1280)"
  by (simp add: crop_window_def)

lemma crop_window_50_1300: "crop_window 50 1300 = (750, 2500)"
  by (simp add: crop_window_def)

text \<open>
  C7, as the code has it. The bounds of a crop window are never negative. The crop keeps
  the rows of the window that the image has, that is both bounds are clamped to the
  number of rows, and does not raise. When at least one row remains (and the image has a
  column), the crop is rescaled to exactly 700 by 300, that is 300 rows of 700 columns,
  whatever its aspect ratio.
\<close>

theorem crop_clamps_then_resizes:
  "0 \<le> fst (crop_window s e) \<and> 0 \<le> snd (crop_window s e) \<and>
   crop_rows img (fst (crop_window s e)) (snd (crop_window s e)) =
     (min (nat (snd (crop_window s e))) (fst img) - min (nat (fst (crop_window s e))) (fst img),
      snd img) \<and>
   (min (nat (fst (crop_window s e))) (fst img) < min (nat (snd (crop_window s e))) (fst img)
      \<and> 0 < snd img
      \<longrightarrow> crop_and_resize img s e = Inr (300, 700))"
proof -
  have "crop_and_resize img s e = Inr (300, 700)"
    if "min (nat (fst (crop_window s e))) (fst img) < min (nat (snd (crop_window s e))) (fst img)"
      and "0 < snd img"
    unfolding crop_and_resize_def Let_def crop_rows_window
    by (rule cv2_resize_nonempty [OF that])
  then show ?thesis
    using crop_window_nonneg [of s e] crop_rows_window [of img s e] by blast
qed

theorem crop_clamps_then_resizes_witness:
  "crop_and_resize (2000, 1000) 11 30 = Inr (300, 700) \<and>
   crop_rows (2000, 1000) 750 2500 = (1250, 1000)"
  using crop_clamps_then_resizes [of 11 30 "(2000, 1000)"]
    crop_clamps_then_resizes [of 50 1300 "(2000, 1000)"]
  unfolding crop_window_11_30 crop_window_50_1300 by simp

text \<open>
  Where the clamped window is empty the resize raises: an image of 600 rows whose
  timestamp is found at offset 11 has the window [611, 1280], no row of the image lies
  in it, and the run ends with the error of \<^verbatim>\<open>cv2.resize\<close>.
\<close>

theorem crop_empty_window_counterexample:
  "crop_rows (600, 1000) 611 1280 = (0, 1000) \<and>
   crop_and_resize (600, 1000) 11 30 = Inl CvError \<and>
   main_caller [\<lparr>file_path = ''images/trip_image_1.jpg'', shape = (600, 1000),
                 ocr_text = ''Uber trip  1/25/22, 3:45 PM Your ride''\<rparr>] = Inl CvError"
proof -
  have a: "crop_rows (600, 1000) 611 1280 = (0, 1000)"
    by (simp add: crop_rows_def adjust_index_def)
  have b: "crop_and_resize (600, 1000) 11 30 = Inl CvError"
    unfolding crop_and_resize_def Let_def crop_window_11_30
    by (simp add: crop_rows_def adjust_index_def cv2_resize_def)
  have c: "main_caller [\<lparr>file_path = ''images/trip_image_1.jpg'', shape = (600, 1000),
                 ocr_text = ''Uber trip  1/25/22, 3:45 PM Your ride''\<rparr>] = Inl CvError"
    by code_simp
  show ?thesis by (intro conjI a b c)
qed

subsection \<open>The loops of \<^verbatim>\<open>create_pdf\<close>\<close>

lemma draw_cells_Inr:
  "draw_cells files es k = Inr cs \<Longrightarrow>
     length cs = length es \<and> (\<forall>j<length es. draw_cell files (k + j) (es ! j) = Inr (cs ! j))"
proof (induction es arbitrary: k cs)
  case Nil
  then show ?case by simp
next
  case (Cons entry rest)
  from Cons.prems obtain c cs' where c: "draw_cell files k entry = Inr c"
    and r: "draw_cells files rest (Suc k) = Inr cs'" and cs: "cs = c # cs'"
    by (auto split: sum.splits)
  from Cons.IH [OF r] have len: "length cs' = length rest"
    and nth: "\<And>j. j < length rest \<Longrightarrow> draw_cell files (Suc k + j) (rest ! j) = Inr (cs' ! j)"
    by auto
  show ?case
  proof (intro conjI allI impI)
    show "length cs = length (entry # rest)" using len cs by simp
  next
    fix j assume "j < length (entry # rest)"
    then show "draw_cell files (k + j) ((entry # rest) ! j) = Inr (cs ! j)"
      using c nth [of "j - 1"] cs by (cases j) auto
  qed
qed

lemma draw_pages_Inr:
  "draw_pages il idl files js = Inr ps \<Longrightarrow>
     length ps = length js \<and> (\<forall>j<length js. draw_page il idl files (js ! j) = Inr (ps ! j))"
proof (induction js arbitrary: ps)
  case Nil
  then show ?case by simp
next
  case (Cons i rest)
  from Cons.prems obtain p ps' where p: "draw_page il idl files i = Inr p"
    and r: "draw_pages il idl files rest = Inr ps'" and ps: "ps = p # ps'"
    by (auto split: sum.splits)
  from Cons.IH [OF r] have len: "length ps' = length rest"
    and nth: "\<And>j. j < length rest \<Longrightarrow> draw_page il idl files (rest ! j) = Inr (ps' ! j)"
    by auto
  show ?case
  proof (intro conjI allI impI)
    show "length ps = length (i # rest)" using len ps by simp
  next
    fix j assume "j < length (i # rest)"
    then show "draw_page il idl files ((i # rest) ! j) = Inr (ps ! j)"
      using p nth [of "j - 1"] ps by (cases j) auto
  qed
qed

lemma create_pdf_Inr:
  assumes "create_pdf il idl files dl = Inr pages"
  shows "length pages = num_weeks dl"
    and "j < length pages \<Longrightarrow> draw_page il idl files j = Inr (pages ! j)"
proof -
  from assms have d: "draw_pages il idl files [0..<num_weeks dl] = Inr pages"
    by (simp add: create_pdf_def)
  from draw_pages_Inr [OF d] show len: "length pages = num_weeks dl" by simp
  assume "j < length pages"
  with draw_pages_Inr [OF d] len show "draw_page il idl files j = Inr (pages ! j)"
    by (metis add_0 length_upt diff_zero nth_upt)
qed

lemma draw_page_Inr:
  assumes "draw_page il idl files i = Inr pg"
  obtains first others a b where
    "week_specific idl i = first # others"
    "list_index il first = Inr a"
    "list_index il (last (first # others)) = Inr b"
    "draw_cells files (py_slice idl (int a) (int b + 1)) 0 = Inr (cells pg)"
    "heading pg = ''Week '' @ str_nat (i + 1)"
  using assms unfolding draw_page_def Let_def
  by (auto split: list.splits sum.splits)

lemma y_even: "idx mod 2 = 0 \<Longrightarrow> 65 * int idx = 130 * int (idx div 2)"
proof -
  assume "idx mod 2 = 0"
  then obtain k where k: "idx = 2 * k" by auto
  show ?thesis unfolding k by simp
qed

lemma y_odd: "idx mod 2 \<noteq> 0 \<Longrightarrow> 65 * (int idx - 1) = 130 * int (idx div 2)"
proof -
  assume "idx mod 2 \<noteq> 0"
  then have "odd idx" by presburger
  then obtain k where k: "idx = 2 * k + 1" by (auto elim: oddE)
  show ?thesis unfolding k by simp
qed

lemma draw_cell_cases:
  assumes "draw_cell files idx entry = Inr c"
  obtains sz where "image_open files (fst entry) = Inr sz"
    and "c = \<lparr>label_text = strftime_BdY (snd entry),
              label_x = (if idx mod 2 = 0 then 50 else 350),
              label_y = 780 - 130 * int (idx div 2),
              image_name = fst entry,
              image_x = (if idx mod 2 = 0 then 50 else 350),
              image_y = 780 - (130 * int (idx div 2) + 100),
              image_width = fst (thumbnail (220, 220) sz),
              image_height = snd (thumbnail (220, 220) sz)\<rparr>"
proof -
  from assms obtain sz where sz: "image_open files (fst entry) = Inr sz"
    unfolding draw_cell_def Let_def by (cases "image_open files (fst entry)") simp_all
  show thesis
  proof (cases "idx mod 2 = 0")
    case True
    from assms sz True show thesis
      unfolding draw_cell_def Let_def
      by (intro that [OF sz]) (simp add: y_even [OF True, symmetric])
  next
    case False
    from assms sz False show thesis
      unfolding draw_cell_def Let_def
      by (intro that [OF sz]) (simp add: y_odd [OF False, symmetric])
  qed
qed

subsection \<open>Pages and cells\<close>

lemma set_py_slice: "set (py_slice xs lo hi) \<subseteq> set xs"
  unfolding py_slice_def Let_def
  by (meson set_take_subset set_drop_subset subset_trans)

lemmas draw_cells_length = draw_cells_Inr [THEN conjunct1]

lemmas draw_cells_nth = draw_cells_Inr [THEN conjunct2, rule_format]

lemma page_cell:
  assumes "create_pdf il idl files dl = Inr pages" and "pg \<in> set pages"
    and "idx < length (cells pg)"
  obtains entry where "entry \<in> set idl"
    and "draw_cell files idx entry = Inr (cells pg ! idx)"
proof -
  from assms(2) obtain j where j: "j < length pages" "pages ! j = pg"
    by (auto simp: in_set_conv_nth)
  from create_pdf_Inr(2) [OF assms(1) j(1)] j(2)
  have "draw_page il idl files j = Inr pg" by simp
  then obtain a b where dc: "draw_cells files (py_slice idl (int a) (int b + 1)) 0 = Inr (cells pg)"
    by (rule draw_page_Inr)
  from draw_cells_length [OF dc] assms(3)
  have len: "idx < length (py_slice idl (int a) (int b + 1))"
    by simp
  from draw_cells_nth [OF dc len]
  have c: "draw_cell files idx (py_slice idl (int a) (int b + 1) ! idx) = Inr (cells pg ! idx)"
    by simp
  from len have "py_slice idl (int a) (int b + 1) ! idx \<in> set (py_slice idl (int a) (int b + 1))"
    by (rule nth_mem)
  then have "py_slice idl (int a) (int b + 1) ! idx \<in> set idl"
    using set_py_slice by (rule rev_subsetD)
  then show thesis using c by (rule that)
qed

text \<open>
  C2, as the code has it. On every page the members are laid out from index 0: a member
  of even index is drawn in the left column at x = 50, a member of odd index in the right
  column at x + 300, and the row of a member lies 130 units (65 times the even index of
  the pair) below the row before it, starting at y = 780. So the third of three members
  is drawn in the left column, 130 units below the top row. The image is drawn at the
  same x, 100 units below the label.
\<close>

theorem cell_positions:
  assumes "create_pdf il idl files dl = Inr pages" and "pg \<in> set pages"
    and "idx < length (cells pg)"
  shows "label_x (cells pg ! idx) = (if even idx then 50 else 50 + 300) \<and>
         label_y (cells pg ! idx) = 780 - 130 * int (idx div 2) \<and>
         image_x (cells pg ! idx) = label_x (cells pg ! idx) \<and>
         image_y (cells pg ! idx) = label_y (cells pg ! idx) - 100"
proof -
  from assms obtain entry where "draw_cell files idx entry = Inr (cells pg ! idx)"
    by (rule page_cell)
  then obtain sz where "cells pg ! idx = \<lparr>label_text = strftime_BdY (snd entry),
              label_x = (if idx mod 2 = 0 then 50 else 350),
              label_y = 780 - 130 * int (idx div 2),
              image_name = fst entry,
              image_x = (if idx mod 2 = 0 then 50 else 350),
              image_y = 780 - (130 * int (idx div 2) + 100),
              image_width = fst (thumbnail (220, 220) sz),
              image_height = snd (thumbnail (220, 220) sz)\<rparr>"
    by (rule draw_cell_cases)
  then show ?thesis by (simp add: even_iff_mod_2_eq_zero)
qed

lemma thumbnail_700_300: "thumbnail (220, 220) (700, 300) = (220, 94)"
  by code_simp

text \<open>
  C8, as the code has it. Every cell draws the image of one entry of the timeline with
  the width and height that the opened file has after \<^verbatim>\<open>img.thumbnail((220, 220))\<close>
  has shrunk it to fit 220 by 220; for a file of the canonical size 700 by 300 that is
  220 by 94, not 700 by 300. The label is the date of the entry as month name, day of
  two digits, comma, year; it is drawn at the position of the cell and the image at the
  same x, 100 units below.
\<close>

theorem cell_image_size_and_label:
  assumes "create_pdf il idl files dl = Inr pages" and "pg \<in> set pages"
    and "c \<in> set (cells pg)"
  shows "\<exists>entry sz. entry \<in> set idl \<and> image_name c = fst entry \<and>
           image_open files (fst entry) = Inr sz \<and>
           (image_width c, image_height c) = thumbnail (220, 220) sz \<and>
           (sz = (700, 300) \<longrightarrow> image_width c = 220 \<and> image_height c = 94) \<and>
           label_text c = month_name (month (snd entry)) @ '' '' @ pad2 (nat (day (snd entry)))
                            @ '', '' @ str_nat (nat (year (snd entry))) \<and>
           image_x c = label_x c \<and> image_y c = label_y c - 100"
proof -
  from assms(3) obtain idx where idx: "idx < length (cells pg)" "cells pg ! idx = c"
    by (auto simp: in_set_conv_nth)
  from assms(1,2) idx(1) obtain entry where e: "entry \<in> set idl"
    and d: "draw_cell files idx entry = Inr (cells pg ! idx)"
    by (rule page_cell)
  from d obtain sz where sz: "image_open files (fst entry) = Inr sz"
    and c: "cells pg ! idx = \<lparr>label_text = strftime_BdY (snd entry),
              label_x = (if idx mod 2 = 0 then 50 else 350),
              label_y = 780 - 130 * int (idx div 2),
              image_name = fst entry,
              image_x = (if idx mod 2 = 0 then 50 else 350),
              image_y = 780 - (130 * int (idx div 2) + 100),
              image_width = fst (thumbnail (220, 220) sz),
              image_height = snd (thumbnail (220, 220) sz)\<rparr>"
    by (rule draw_cell_cases)
  have "image_name c = fst entry \<and>
           (image_width c, image_height c) = thumbnail (220, 220) sz \<and>
           (sz = (700, 300) \<longrightarrow> image_width c = 220 \<and> image_height c = 94) \<and>
           label_text c = month_name (month (snd entry)) @ '' '' @ pad2 (nat (day (snd entry)))
                            @ '', '' @ str_nat (nat (year (snd entry))) \<and>
           image_x c = label_x c \<and> image_y c = label_y c - 100"
    using c idx(2) by (auto simp: strftime_BdY_def thumbnail_700_300)
  with e sz show ?thesis by blast
qed

text \<open>
  C1, as the code has it. When \<^verbatim>\<open>create_pdf\<close> completes on a timeline that is not
  empty, the number of pages equals the number of distinct \<^verbatim>\<open>strftime("%U")\<close> values
  of the dates; every page number from 1 to that count is then the day-of-month week
  index of some entry.
\<close>

theorem page_count:
  assumes "create_pdf il idl files dl = Inr pages" and "dl \<noteq> []"
  shows "length pages = card (set (map strftime_U dl)) \<and>
         (\<forall>p\<in>{1..length pages}. \<exists>x\<in>set idl. week_index (snd x) = int p)"
proof -
  have a: "length pages = card (set (map strftime_U dl))"
    using create_pdf_Inr(1) [OF assms(1)] by (simp add: num_weeks_def)
  have b: "\<exists>x\<in>set idl. week_index (snd x) = int p" if "p \<in> {1..length pages}" for p
  proof -
    from that have j: "p - 1 < length pages" and p: "p = (p - 1) + 1" by auto
    from create_pdf_Inr(2) [OF assms(1) j] obtain first others
      where "week_specific idl (p - 1) = first # others"
      by (rule draw_page_Inr)
    then have "filter (\<lambda>x. week_index (snd x) = int (p - 1) + 1) idl \<noteq> []"
      by (auto simp: week_specific_def)
    then obtain x where "x \<in> set idl" "week_index (snd x) = int (p - 1) + 1"
      by (auto simp: filter_empty_conv)
    with that show ?thesis by (auto simp: of_nat_diff)
  qed
  from a b show ?thesis by blast
qed

subsection \<open>Runs on concrete timelines\<close>

lemma sample_pdf_pages:
  "sample_pdf =
     Inr [\<lparr>heading = ''Week 1'',
           cells =
             [\<lparr>label_text = ''January 03, 2022'', label_x = 50, label_y = 780,
               image_name = ''images/trip_image_4.jpg'', image_x = 50, image_y = 680,
               image_width = 220, image_height = 94\<rparr>,
              \<lparr>label_text = ''January 04, 2022'', label_x = 350, label_y = 780,
               image_name = ''images/trip_image_1.jpg'', image_x = 350, image_y = 680,
               image_width = 220, image_height = 94\<rparr>]\<rparr>,
          \<lparr>heading = ''Week 2'',
           cells =
             [\<lparr>label_text = ''January 09, 2022'', label_x = 50, label_y = 780,
               image_name = ''images/trip_image_5.jpg'', image_x = 50, image_y = 680,
               image_width = 220, image_height = 94\<rparr>,
              \<lparr>label_text = ''January 10, 2022'', label_x = 350, label_y = 780,
               image_name = ''images/trip_image_2.jpg'', image_x = 350, image_y = 680,
               image_width = 220, image_height = 94\<rparr>,
              \<lparr>label_text = ''January 11, 2022'', label_x = 50, label_y = 650,
               image_name = ''images/trip_image_3.jpg'', image_x = 50, image_y = 550,
               image_width = 220, image_height = 94\<rparr>]\<rparr>]"
  by code_simp

lemma sample_weeks: "card (set (map strftime_U (map snd sample_timeline))) = 2"
  by code_simp

theorem cell_positions_witness:
  "label_x (cells (projr sample_pdf ! 1) ! 2) = 50 \<and>
   label_y (cells (projr sample_pdf ! 1) ! 2) = 650 \<and>
   label_x (cells (projr sample_pdf ! 1) ! 1) = 350 \<and>
   label_y (cells (projr sample_pdf ! 1) ! 1) = 780 \<and>
   image_y (cells (projr sample_pdf ! 1) ! 2) = 550"
proof -
  have run: "create_pdf (map fst sample_timeline) sample_timeline sample_disk
               (map snd sample_timeline) = Inr (projr sample_pdf)"
    unfolding sample_pdf_def [symmetric] by (simp add: sample_pdf_pages)
  have mem: "projr sample_pdf ! 1 \<in> set (projr sample_pdf)"
    by (simp add: sample_pdf_pages)
  have i1: "1 < length (cells (projr sample_pdf ! 1))"
    and i2: "2 < length (cells (projr sample_pdf ! 1))"
    by (simp_all add: sample_pdf_pages)
  from cell_positions [OF run mem i1] cell_positions [OF run mem i2]
  show ?thesis by simp
qed

text \<open>
  Three members of one week: the third is drawn at y = 650, 130 units below the top row
  at y = 780, not 65 units below it.
\<close>

theorem cell_positions_counterexample:
  "map_sum id (map (\<lambda>pg. map (\<lambda>c. (label_x c, label_y c)) (cells pg)))
     (create_pdf [''a'', ''b'', ''c'']
        [(''a'', \<lparr>year = 2022, month = 1, day = 2, hour = 15, minute = 45\<rparr>),
         (''b'', \<lparr>year = 2022, month = 1, day = 3, hour = 9, minute = 5\<rparr>),
         (''c'', \<lparr>year = 2022, month = 1, day = 4, hour = 18, minute = 30\<rparr>)]
        [''a'' \<mapsto> (300, 700), ''b'' \<mapsto> (300, 700), ''c'' \<mapsto> (300, 700)]
        [\<lparr>year = 2022, month = 1, day = 2, hour = 15, minute = 45\<rparr>,
         \<lparr>year = 2022, month = 1, day = 3, hour = 9, minute = 5\<rparr>,
         \<lparr>year = 2022, month = 1, day = 4, hour = 18, minute = 30\<rparr>])
   = Inr [[(50, 780), (350, 780), (50, 650)]]"
  by code_simp

theorem cell_image_size_and_label_witness:
  "\<exists>entry sz. entry \<in> set sample_timeline \<and>
     image_name (cells (projr sample_pdf ! 1) ! 2) = fst entry \<and>
     image_open sample_disk (fst entry) = Inr sz \<and>
     (image_width (cells (projr sample_pdf ! 1) ! 2), image_height (cells (projr sample_pdf ! 1) ! 2))
       = thumbnail (220, 220) sz \<and>
     (sz = (700, 300) \<longrightarrow> image_width (cells (projr sample_pdf ! 1) ! 2) = 220
        \<and> image_height (cells (projr sample_pdf ! 1) ! 2) = 94) \<and>
     label_text (cells (projr sample_pdf ! 1) ! 2) =
       month_name (month (snd entry)) @ '' '' @ pad2 (nat (day (snd entry))) @ '', ''
         @ str_nat (nat (year (snd entry))) \<and>
     image_x (cells (projr sample_pdf ! 1) ! 2) = label_x (cells (projr sample_pdf ! 1) ! 2) \<and>
     image_y (cells (projr sample_pdf ! 1) ! 2) = label_y (cells (projr sample_pdf ! 1) ! 2) - 100"
proof -
  have run: "create_pdf (map fst sample_timeline) sample_timeline sample_disk
               (map snd sample_timeline) = Inr (projr sample_pdf)"
    unfolding sample_pdf_def [symmetric] by (simp add: sample_pdf_pages)
  have mem: "projr sample_pdf ! 1 \<in> set (projr sample_pdf)"
    by (simp add: sample_pdf_pages)
  have c: "cells (projr sample_pdf ! 1) ! 2 \<in> set (cells (projr sample_pdf ! 1))"
    by (simp add: sample_pdf_pages)
  show ?thesis by (rule cell_image_size_and_label [OF run mem c])
qed

text \<open>
  One receipt through the whole program: the file written back by the crop step has 300
  rows and 700 columns, and the page draws it 220 wide and 94 high.
\<close>

theorem cell_image_size_counterexample:
  "map_sum id (\<lambda>r. snd r ''images/trip_image_1.jpg'')
     (crop_img_n_get_date date_time_regex img_crop_end_regex
        [\<lparr>file_path = ''images/trip_image_1.jpg'', shape = (2000, 1000),
          ocr_text = ''1/2/22, 3:45 PM Your ride''\<rparr>])
   = Inr (Some (300, 700)) \<and>
   map_sum id (map (\<lambda>pg. map (\<lambda>c. (image_width c, image_height c)) (cells pg)))
     (main_caller
        [\<lparr>file_path = ''images/trip_image_1.jpg'', shape = (2000, 1000),
          ocr_text = ''1/2/22, 3:45 PM Your ride''\<rparr>])
   = Inr [[(220, 94)]]"
proof -
  have a: "map_sum id (\<lambda>r. snd r ''images/trip_image_1.jpg'')
     (crop_img_n_get_date date_time_regex img_crop_end_regex
        [\<lparr>file_path = ''images/trip_image_1.jpg'', shape = (2000, 1000),
          ocr_text = ''1/2/22, 3:45 PM Your ride''\<rparr>])
   = Inr (Some (300, 700))"
    by code_simp
  have b: "map_sum id (map (\<lambda>pg. map (\<lambda>c. (image_width c, image_height c)) (cells pg)))
     (main_caller
        [\<lparr>file_path = ''images/trip_image_1.jpg'', shape = (2000, 1000),
          ocr_text = ''1/2/22, 3:45 PM Your ride''\<rparr>])
   = Inr [[(220, 94)]]"
    by code_simp
  show ?thesis by (intro conjI a b)
qed

theorem page_count_witness:
  "length (projr sample_pdf) = 2 \<and>
   card (set (map strftime_U (map snd sample_timeline))) = 2"
proof -
  have run: "create_pdf (map fst sample_timeline) sample_timeline sample_disk
               (map snd sample_timeline) = Inr (projr sample_pdf)"
    unfolding sample_pdf_def [symmetric] by (simp add: sample_pdf_pages)
  have ne: "map snd sample_timeline \<noteq> []"
    by (simp add: sample_timeline_def)
  from page_count [OF run ne] sample_weeks show ?thesis by simp
qed

text \<open>
  Sunday 2 January and Saturday 8 January 2022 lie in the same week of the year and have
  the week indices 1 and 2: the document has one page, not two.
\<close>

theorem page_count_counterexample:
  "map_sum id length
     (create_pdf [''a'', ''b'']
        [(''a'', \<lparr>year = 2022, month = 1, day = 2, hour = 15, minute = 45\<rparr>),
         (''b'', \<lparr>year = 2022, month = 1, day = 8, hour = 9, minute = 5\<rparr>)]
        [''a'' \<mapsto> (300, 700), ''b'' \<mapsto> (300, 700)]
        [\<lparr>year = 2022, month = 1, day = 2, hour = 15, minute = 45\<rparr>,
         \<lparr>year = 2022, month = 1, day = 8, hour = 9, minute = 5\<rparr>]) = Inr 1 \<and>
   card (set (map week_index
        [\<lparr>year = 2022, month = 1, day = 2, hour = 15, minute = 45\<rparr>,
         \<lparr>year = 2022, month = 1, day = 8, hour = 9, minute = 5\<rparr>])) = 2 \<and>
   card (set (map strftime_U
        [\<lparr>year = 2022, month = 1, day = 2, hour = 15, minute = 45\<rparr>,
         \<lparr>year = 2022, month = 1, day = 8, hour = 9, minute = 5\<rparr>])) = 1"
proof -
  have a: "map_sum id length
     (create_pdf [''a'', ''b'']
        [(''a'', \<lparr>year = 2022, month = 1, day = 2, hour = 15, minute = 45\<rparr>),
         (''b'', \<lparr>year = 2022, month = 1, day = 8, hour = 9, minute = 5\<rparr>)]
        [''a'' \<mapsto> (300, 700), ''b'' \<mapsto> (300, 700)]
        [\<lparr>year = 2022, month = 1, day = 2, hour = 15, minute = 45\<rparr>,
         \<lparr>year = 2022, month = 1, day = 8, hour = 9, minute = 5\<rparr>]) = Inr 1"
    by code_simp
  have b: "card (set (map week_index
        [\<lparr>year = 2022, month = 1, day = 2, hour = 15, minute = 45\<rparr>,
         \<lparr>year = 2022, month = 1, day = 8, hour = 9, minute = 5\<rparr>])) = 2"
    by code_simp
  have c: "card (set (map strftime_U
        [\<lparr>year = 2022, month = 1, day = 2, hour = 15, minute = 45\<rparr>,
         \<lparr>year = 2022, month = 1, day = 8, hour = 9, minute = 5\<rparr>])) = 1"
    by code_simp
  show ?thesis by (intro conjI a b c)
qed

subsection \<open>Pages without members\<close>

lemma list_index_mem: "x \<in> set xs \<Longrightarrow> \<exists>i. list_index xs x = Inr i"
  by (induction xs) auto

lemma image_open_dom: "p \<in> dom files \<Longrightarrow> \<exists>sz. image_open files p = Inr sz"
  by (auto simp: image_open_def)

lemma draw_cell_dom: "fst entry \<in> dom files \<Longrightarrow> \<exists>c. draw_cell files idx entry = Inr c"
proof -
  assume "fst entry \<in> dom files"
  from image_open_dom [OF this] obtain sz where "image_open files (fst entry) = Inr sz"
    by blast
  then show ?thesis by (simp add: draw_cell_def Let_def)
qed

lemma draw_cells_dom:
  "\<forall>x\<in>set es. fst x \<in> dom files \<Longrightarrow> \<exists>cs. draw_cells files es k = Inr cs"
proof (induction es arbitrary: k)
  case Nil
  then show ?case by simp
next
  case (Cons entry rest)
  from Cons.prems have "fst entry \<in> dom files" by simp
  from draw_cell_dom [OF this] obtain c where c: "draw_cell files k entry = Inr c"
    by blast
  from Cons.prems have "\<forall>x\<in>set rest. fst x \<in> dom files" by simp
  from Cons.IH [OF this, of "Suc k"] obtain cs where "draw_cells files rest (Suc k) = Inr cs"
    by blast
  with c show ?case by simp
qed

lemma week_specific_empty:
  "week_specific idl i = [] \<longleftrightarrow> (\<forall>x\<in>set idl. week_index (snd x) \<noteq> int i + 1)"
  by (auto simp: week_specific_def filter_empty_conv)

lemma week_specific_subset: "set (week_specific idl i) \<subseteq> set (map fst idl)"
  by (auto simp: week_specific_def)

lemma draw_page_no_member:
  "week_specific idl i = [] \<Longrightarrow> draw_page il idl files i = Inl IndexError"
  by (simp add: draw_page_def)

lemma draw_page_member:
  assumes "week_specific idl i \<noteq> []" and "\<forall>x\<in>set idl. fst x \<in> dom files"
  shows "\<exists>pg. draw_page (map fst idl) idl files i = Inr pg"
proof -
  from assms(1) obtain first others where w: "week_specific idl i = first # others"
    by (cases "week_specific idl i") auto
  have f: "first \<in> set (map fst idl)"
    using week_specific_subset [of idl i] w by auto
  from list_index_mem [OF f] obtain a where a: "list_index (map fst idl) first = Inr a"
    by blast
  have "last (first # others) \<in> set (week_specific idl i)"
    unfolding w by (rule last_in_set) simp
  then have l: "last (first # others) \<in> set (map fst idl)"
    using week_specific_subset [of idl i] by (rule rev_subsetD)
  from list_index_mem [OF l]
  obtain b where b: "list_index (map fst idl) (last (first # others)) = Inr b"
    by blast
  have "\<forall>x\<in>set (py_slice idl (int a) (int b + 1)). fst x \<in> dom files"
    using assms(2) set_py_slice [of idl "int a" "int b + 1"] by blast
  from draw_cells_dom [OF this, of 0]
  obtain cs where "draw_cells files (py_slice idl (int a) (int b + 1)) 0 = Inr cs"
    by blast
  with w a b show ?thesis
    unfolding draw_page_def Let_def by simp
qed

lemma draw_pages_no_member:
  assumes "\<forall>x\<in>set idl. fst x \<in> dom files"
  shows "\<exists>i\<in>set js. week_specific idl i = [] \<Longrightarrow>
           draw_pages (map fst idl) idl files js = Inl IndexError"
proof (induction js)
  case Nil
  then show ?case by simp
next
  case (Cons i rest)
  show ?case
  proof (cases "week_specific idl i = []")
    case True
    then show ?thesis by (simp add: draw_page_no_member)
  next
    case False
    from draw_page_member [OF False assms]
    obtain pg where pg: "draw_page (map fst idl) idl files i = Inr pg"
      by blast
    from False Cons.prems have "\<exists>i\<in>set rest. week_specific idl i = []" by auto
    then have "draw_pages (map fst idl) idl files rest = Inl IndexError"
      by (rule Cons.IH)
    with pg show ?thesis by simp
  qed
qed

text \<open>
  C10. On a timeline whose files can all be opened, if some page number \<open>p\<close> from 1 up
  to the number of distinct \<^verbatim>\<open>strftime("%U")\<close> values is the day-of-month week index
  of no entry, then \<^verbatim>\<open>create_pdf\<close> ends with an \<^verbatim>\<open>IndexError\<close> (line 217 takes
  element 0 of an empty list) and writes no document. The timeline of 25 January and
  1 February 2022 is one: two weeks of the year, week indices 4 and 1, none equal to 2.
\<close>

theorem create_pdf_index_error:
  assumes "\<forall>x\<in>set idl. fst x \<in> dom files"
    and "1 \<le> p" and "p \<le> card (set (map strftime_U (map snd idl)))"
    and "\<forall>x\<in>set idl. week_index (snd x) \<noteq> int p"
  shows "create_pdf (map fst idl) idl files (map snd idl) = Inl IndexError"
proof -
  from assms(2,3) have "p - 1 \<in> set [0..<num_weeks (map snd idl)]"
    by (simp add: num_weeks_def)
  moreover from assms(2,4) have "week_specific idl (p - 1) = []"
    by (simp add: week_specific_empty of_nat_diff)
  ultimately have "\<exists>i\<in>set [0..<num_weeks (map snd idl)]. week_specific idl i = []"
    by blast
  then show ?thesis
    unfolding create_pdf_def by (rule draw_pages_no_member [OF assms(1)])
qed

theorem create_pdf_index_error_witness:
  "create_pdf
     (map fst [(''a'', \<lparr>year = 2022, month = 1, day = 25, hour = 15, minute = 45\<rparr>),
               (''b'', \<lparr>year = 2022, month = 2, day = 1, hour = 9, minute = 5\<rparr>)])
     [(''a'', \<lparr>year = 2022, month = 1, day = 25, hour = 15, minute = 45\<rparr>),
      (''b'', \<lparr>year = 2022, month = 2, day = 1, hour = 9, minute = 5\<rparr>)]
     [''a'' \<mapsto> (300, 700), ''b'' \<mapsto> (300, 700)]
     (map snd [(''a'', \<lparr>year = 2022, month = 1, day = 25, hour = 15, minute = 45\<rparr>),
               (''b'', \<lparr>year = 2022, month = 2, day = 1, hour = 9, minute = 5\<rparr>)])
   = Inl IndexError"
proof -
  have a: "\<forall>x\<in>set [(''a'', \<lparr>year = 2022, month = 1, day = 25, hour = 15, minute = 45\<rparr>),
      (''b'', \<lparr>year = 2022, month = 2, day = 1, hour = 9, minute = 5\<rparr>)].
        fst x \<in> dom [''a'' \<mapsto> (300, 700), ''b'' \<mapsto> (300::nat, 700::nat)]"
    by simp
  have b: "(1::nat) \<le> 2" by simp
  have c: "2 \<le> card (set (map strftime_U
     (map snd [(''a'', \<lparr>year = 2022, month = 1, day = 25, hour = 15, minute = 45\<rparr>),
               (''b'', \<lparr>year = 2022, month = 2, day = 1, hour = 9, minute = 5\<rparr>)])))"
    by code_simp
  have d: "\<forall>x\<in>set [(''a'', \<lparr>year = 2022, month = 1, day = 25, hour = 15, minute = 45\<rparr>),
      (''b'', \<lparr>year = 2022, month = 2, day = 1, hour = 9, minute = 5\<rparr>)].
        week_index (snd x) \<noteq> int 2"
    by (simp add: week_index_def)
  show ?thesis by (rule create_pdf_index_error [OF a b c d])
qed

subsection \<open>The members of a page\<close>

lemma list_index_append:
  "x \<notin> set xs \<Longrightarrow> list_index (xs @ x # ys) x = Inr (length xs)"
  by (induction xs) auto

lemma adjust_index_int: "adjust_index (int a) n = min a n"
  using adjust_index_nonneg [of "int a" n] by simp

lemma py_slice_middle:
  "py_slice (pre @ mid @ suf) (int (length pre)) (int (length pre + length mid)) = mid"
  unfolding py_slice_def Let_def adjust_index_int by simp

lemma first_last_slice:
  assumes "filter P xs \<noteq> []"
  obtains pre mid suf where "xs = pre @ mid @ suf" and "mid \<noteq> []"
    and "hd mid = hd (filter P xs)" and "last mid = last (filter P xs)"
    and "P (hd mid)" and "P (last mid)"
    and "\<forall>x\<in>set pre. \<not> P x" and "\<forall>x\<in>set suf. \<not> P x"
proof -
  from assms have "\<exists>x\<in>set xs. P x" by (auto simp: filter_empty_conv)
  from split_list_first_prop [OF this]
  obtain pre y vs where xs: "xs = pre @ y # vs" and y: "P y" and pre: "\<forall>x\<in>set pre. \<not> P x"
    by blast
  from y have "\<exists>x\<in>set (y # vs). P x" by simp
  from split_list_last_prop [OF this]
  obtain ws z suf where yvs: "y # vs = ws @ z # suf" and z: "P z" and suf: "\<forall>x\<in>set suf. \<not> P x"
    by blast
  have hdm: "hd (ws @ [z]) = y"
    using yvs by (cases ws) auto
  have f1: "filter P xs = y # filter P vs"
    using xs pre y by simp
  have f2: "filter P (y # vs) = filter P ws @ [z]"
    unfolding yvs using z suf by simp
  have lastf: "last (filter P xs) = z"
    using f1 f2 y by (metis filter.simps(2) last_snoc)
  show thesis
  proof (rule that [of pre "ws @ [z]" suf])
    show "xs = pre @ (ws @ [z]) @ suf" using xs yvs by simp
    show "ws @ [z] \<noteq> []" by simp
    show "hd (ws @ [z]) = hd (filter P xs)" using hdm f1 by simp
    show "last (ws @ [z]) = last (filter P xs)" using lastf by simp
    show "P (hd (ws @ [z]))" using hdm y by simp
    show "P (last (ws @ [z]))" using z by simp
    show "\<forall>x\<in>set pre. \<not> P x" by (rule pre)
    show "\<forall>x\<in>set suf. \<not> P x" by (rule suf)
  qed
qed


lemma draw_cells_members:
  "draw_cells files es k = Inr cs \<Longrightarrow>
     map (\<lambda>c. (image_name c, label_text c)) cs = map (\<lambda>x. (fst x, strftime_BdY (snd x))) es"
proof (induction es arbitrary: k cs)
  case Nil
  then show ?case by simp
next
  case (Cons entry rest)
  from Cons.prems obtain c cs' where c: "draw_cell files k entry = Inr c"
    and r: "draw_cells files rest (Suc k) = Inr cs'" and cs: "cs = c # cs'"
    by (auto split: sum.splits)
  from c obtain sz where "c = \<lparr>label_text = strftime_BdY (snd entry),
              label_x = (if k mod 2 = 0 then 50 else 350),
              label_y = 780 - 130 * int (k div 2),
              image_name = fst entry,
              image_x = (if k mod 2 = 0 then 50 else 350),
              image_y = 780 - (130 * int (k div 2) + 100),
              image_width = fst (thumbnail (220, 220) sz),
              image_height = snd (thumbnail (220, 220) sz)\<rparr>"
    by (rule draw_cell_cases)
  then have "(image_name c, label_text c) = (fst entry, strftime_BdY (snd entry))"
    by simp
  with Cons.IH [OF r] cs show ?case by simp
qed

lemma list_index_first:
  assumes "distinct (map fst (pre @ mid @ suf))" and "mid \<noteq> []"
  shows "list_index (map fst (pre @ mid @ suf)) (fst (hd mid)) = Inr (length pre)"
proof -
  from assms(2) obtain x rest where mid: "mid = x # rest" by (cases mid) auto
  from assms(1) have "fst x \<notin> set (map fst pre)"
    unfolding mid by auto
  from list_index_append [OF this, of "map fst rest @ map fst suf"]
  show ?thesis unfolding mid by simp
qed

lemma list_index_last:
  assumes "distinct (map fst (pre @ mid @ suf))" and "mid \<noteq> []"
  shows "list_index (map fst (pre @ mid @ suf)) (fst (last mid)) =
           Inr (length pre + length mid - 1)"
proof -
  from assms(2) obtain front z where mid: "mid = front @ [z]"
    by (cases mid rule: rev_cases) auto
  from assms(1) have "fst z \<notin> set (map fst pre @ map fst front)"
    unfolding mid by auto
  from list_index_append [OF this, of "map fst suf"]
  show ?thesis unfolding mid by simp
qed

text \<open>
  C6. On every page of a completed run over a timeline of distinct files, the members
  drawn are exactly the inclusive slice of the timeline from the first to the last entry
  whose week index, (day of month - 1) div 7 + 1, is the page number, in the order of the
  timeline: the timeline splits into the entries before the slice, none of that week
  index, the slice, which starts and ends with an entry of that week index, and the
  entries after it, none of that week index. The formula maps the days 1 and 7 to week
  index 1, day 8 to 2 and day 31 to 5.
\<close>

theorem page_members:
  assumes "create_pdf (map fst idl) idl files dl = Inr pages"
    and "distinct (map fst idl)" and "j < length pages"
  shows "(\<exists>pre members suf. idl = pre @ members @ suf \<and> members \<noteq> [] \<and>
            week_index (snd (hd members)) = int j + 1 \<and>
            week_index (snd (last members)) = int j + 1 \<and>
            (\<forall>x\<in>set pre. week_index (snd x) \<noteq> int j + 1) \<and>
            (\<forall>x\<in>set suf. week_index (snd x) \<noteq> int j + 1) \<and>
            map (\<lambda>c. (image_name c, label_text c)) (cells (pages ! j)) =
              map (\<lambda>x. (fst x, strftime_BdY (snd x))) members) \<and>
         (\<forall>d. week_index (d\<lparr>day := 1\<rparr>) = 1 \<and> week_index (d\<lparr>day := 7\<rparr>) = 1 \<and>
              week_index (d\<lparr>day := 8\<rparr>) = 2 \<and> week_index (d\<lparr>day := 31\<rparr>) = 5)"
proof -
  let ?P = "\<lambda>x. week_index (snd x) = int j + 1"
  from create_pdf_Inr(2) [OF assms(1,3)]
  have "draw_page (map fst idl) idl files j = Inr (pages ! j)" .
  then obtain first others a b where w: "week_specific idl j = first # others"
    and a: "list_index (map fst idl) first = Inr a"
    and b: "list_index (map fst idl) (last (first # others)) = Inr b"
    and dc: "draw_cells files (py_slice idl (int a) (int b + 1)) 0 = Inr (cells (pages ! j))"
    by (rule draw_page_Inr)
  from w have fw: "map fst (filter ?P idl) = first # others"
    by (simp add: week_specific_def)
  then have ne: "filter ?P idl \<noteq> []" by auto
  from first_last_slice [OF ne]
  obtain pre mid suf where idl: "idl = pre @ mid @ suf" and mid: "mid \<noteq> []"
    and hd: "hd mid = hd (filter ?P idl)" and last: "last mid = last (filter ?P idl)"
    and phd: "?P (hd mid)" and plast: "?P (last mid)"
    and pre: "\<forall>x\<in>set pre. \<not> ?P x" and suf: "\<forall>x\<in>set suf. \<not> ?P x"
    by blast
  have first: "first = fst (hd mid)"
    using fw ne hd by (metis hd_map list.sel(1))
  have lst: "last (first # others) = fst (last mid)"
    using fw ne last by (metis last_map)
  from assms(2) have d: "distinct (map fst (pre @ mid @ suf))"
    unfolding idl .
  from a list_index_first [OF d mid] have a': "a = length pre"
    unfolding idl first by simp
  from b list_index_last [OF d mid] have b': "b = length pre + length mid - 1"
    unfolding idl lst by simp
  from mid have "0 < length mid" by simp
  with b' have "b + 1 = length pre + length mid" by linarith
  then have b'': "int b + 1 = int (length pre + length mid)"
    by (metis of_nat_1 of_nat_add)
  have sl: "py_slice idl (int a) (int b + 1) = mid"
    unfolding b'' a' idl by (rule py_slice_middle)
  from dc have m: "map (\<lambda>c. (image_name c, label_text c)) (cells (pages ! j)) =
              map (\<lambda>x. (fst x, strftime_BdY (snd x))) mid"
    unfolding sl by (rule draw_cells_members)
  have "\<exists>pre members suf. idl = pre @ members @ suf \<and> members \<noteq> [] \<and>
            week_index (snd (hd members)) = int j + 1 \<and>
            week_index (snd (last members)) = int j + 1 \<and>
            (\<forall>x\<in>set pre. week_index (snd x) \<noteq> int j + 1) \<and>
            (\<forall>x\<in>set suf. week_index (snd x) \<noteq> int j + 1) \<and>
            map (\<lambda>c. (image_name c, label_text c)) (cells (pages ! j)) =
              map (\<lambda>x. (fst x, strftime_BdY (snd x))) members"
    using idl mid phd plast pre suf m by blast
  moreover have "\<forall>d. week_index (d\<lparr>day := 1\<rparr>) = 1 \<and> week_index (d\<lparr>day := 7\<rparr>) = 1 \<and>
              week_index (d\<lparr>day := 8\<rparr>) = 2 \<and> week_index (d\<lparr>day := 31\<rparr>) = 5"
    by (simp add: week_index_def)
  ultimately show ?thesis by (rule conjI)
qed

subsection \<open>Images that cannot be dated or cropped\<close>

theorem page_members_witness:
  "(\<exists>pre members suf. sample_timeline = pre @ members @ suf \<and> members \<noteq> [] \<and>
      week_index (snd (hd members)) = int 1 + 1 \<and>
      week_index (snd (last members)) = int 1 + 1 \<and>
      (\<forall>x\<in>set pre. week_index (snd x) \<noteq> int 1 + 1) \<and>
      (\<forall>x\<in>set suf. week_index (snd x) \<noteq> int 1 + 1) \<and>
      map (\<lambda>c. (image_name c, label_text c)) (cells (projr sample_pdf ! 1)) =
        map (\<lambda>x. (fst x, strftime_BdY (snd x))) members) \<and>
   (\<forall>d. week_index (d\<lparr>day := 1\<rparr>) = 1 \<and> week_index (d\<lparr>day := 7\<rparr>) = 1 \<and>
        week_index (d\<lparr>day := 8\<rparr>) = 2 \<and> week_index (d\<lparr>day := 31\<rparr>) = 5)"
proof -
  have run: "create_pdf (map fst sample_timeline) sample_timeline sample_disk
               (map snd sample_timeline) = Inr (projr sample_pdf)"
    unfolding sample_pdf_def [symmetric] by (simp add: sample_pdf_pages)
  have dist: "distinct (map fst sample_timeline)"
    by (simp add: sample_timeline_def)
  have j: "1 < length (projr sample_pdf)"
    by (simp add: sample_pdf_pages)
  show ?thesis by (rule page_members [OF run dist j])
qed

lemma re_findall_None: "re_search r t = None \<Longrightarrow> re_findall r t = []"
  by (simp add: re_findall_def re_search_def)

lemma re_findall_Some:
  "re_search r t = Some (s, e) \<Longrightarrow> re_findall r t \<noteq> [] \<and> hd (re_findall r t) = substring t s e"
  by (simp add: re_findall_def re_search_def)

lemma search_from_Some:
  "search_from r t p n = Some (s, e) \<Longrightarrow>
     \<exists>st rest. rx_match False r t (s, []) = st # rest \<and> e = fst st"
proof (induction n arbitrary: p)
  case 0
  then show ?case by simp
next
  case (Suc n)
  show ?case
  proof (cases "rx_match False r t (p, [])")
    case Nil
    with Suc.prems have "search_from r t (Suc p) n = Some (s, e)" by simp
    then show ?thesis by (rule Suc.IH)
  next
    case (Cons st rest)
    with Suc.prems show ?thesis by auto
  qed
qed

lemma rx_plus_bounds:
  assumes "\<And>st st'. st' \<in> set (f st) \<Longrightarrow> fst st \<le> fst st' \<and> (fst st \<le> m \<longrightarrow> fst st' \<le> m)"
  shows "st' \<in> set (rx_plus f n st) \<Longrightarrow> fst st \<le> fst st' \<and> (fst st \<le> m \<longrightarrow> fst st' \<le> m)"
proof (induction n arbitrary: st st')
  case 0
  then show ?case by simp
next
  case (Suc n)
  from Suc.prems obtain st1 where st1: "st1 \<in> set (f st)"
    and st': "st' = st1 \<or> (fst st < fst st1 \<and> st' \<in> set (rx_plus f n st1))"
    by (auto split: if_splits)
  from assms [OF st1] have b1: "fst st \<le> fst st1" "fst st \<le> m \<longrightarrow> fst st1 \<le> m"
    by auto
  from st' show ?case
  proof
    assume "st' = st1"
    with b1 show ?thesis by simp
  next
    assume "fst st < fst st1 \<and> st' \<in> set (rx_plus f n st1)"
    then have "fst st1 \<le> fst st' \<and> (fst st1 \<le> m \<longrightarrow> fst st' \<le> m)"
      using Suc.IH by blast
    with b1 show ?thesis by auto
  qed
qed

lemma rx_match_bounds:
  "st' \<in> set (rx_match ic r t st) \<Longrightarrow>
     fst st \<le> fst st' \<and> (fst st \<le> length t \<longrightarrow> fst st' \<le> length t)"
proof (induction r arbitrary: st st')
  case (Seq a b)
  from Seq.prems obtain st1 where s1: "st1 \<in> set (rx_match ic a t st)"
    and s2: "st' \<in> set (rx_match ic b t st1)"
    by auto
  from Seq.IH(1) [OF s1] Seq.IH(2) [OF s2] show ?case by auto
next
  case (Alt a b)
  from Alt.prems have "st' \<in> set (rx_match ic a t st) \<or> st' \<in> set (rx_match ic b t st)"
    by simp
  then show ?case
  proof
    assume "st' \<in> set (rx_match ic a t st)"
    then show ?thesis by (rule Alt.IH(1))
  next
    assume "st' \<in> set (rx_match ic b t st)"
    then show ?thesis by (rule Alt.IH(2))
  qed
next
  case (Opt a)
  from Opt.prems have "st' \<in> set (rx_match ic a t st) \<or> st' = st" by auto
  then show ?case
  proof
    assume "st' \<in> set (rx_match ic a t st)"
    then show ?thesis by (rule Opt.IH)
  next
    assume "st' = st"
    then show ?thesis by simp
  qed
next
  case (Plus a)
  from Plus.prems have "st' \<in> set (rx_plus (rx_match ic a t) (Suc (length t)) st)"
    by simp
  then show ?case
    by (rule rx_plus_bounds [where f = "rx_match ic a t", rotated]) (rule Plus.IH)
next
  case (Group n a)
  from Group.prems obtain st1 where s1: "st1 \<in> set (rx_match ic a t st)"
    and f: "fst st' = fst st1"
    by auto
  from Group.IH [OF s1] f show ?case by simp
qed (auto split: if_splits)

lemma seq_digit_progress:
  assumes "st' \<in> set (rx_match ic (Seq WordB (Seq (Seq Digit opt) r)) t st)"
  shows "fst st < fst st' \<and> fst st' \<le> length t"
proof -
  from assms obtain st2 where s2: "st2 \<in> set (rx_match ic (Seq Digit opt) t st)"
    and s': "st' \<in> set (rx_match ic r t st2)"
    by (auto split: if_splits)
  from s2 obtain st3 where s3: "st3 \<in> set (rx_match ic Digit t st)"
    and s23: "st2 \<in> set (rx_match ic opt t st3)"
    by auto
  from s3 have d: "fst st < length t" "fst st3 = Suc (fst st)"
    by (auto split: if_splits)
  from rx_match_bounds [OF s23] d have "Suc (fst st) \<le> fst st2" "fst st2 \<le> length t"
    by auto
  with rx_match_bounds [OF s'] show ?thesis by auto
qed

lemma date_time_regex_shape:
  "\<exists>r. date_time_regex = Seq WordB (Seq (Seq Digit (Opt Digit)) r)"
  by (simp add: date_time_regex_def seqs_def digits_1_2_def)

lemma date_time_match_nonempty:
  assumes "re_search date_time_regex t = Some (s, e)"
  shows "substring t s e \<noteq> []"
proof -
  from assms have "search_from date_time_regex t 0 (Suc (length t)) = Some (s, e)"
    by (simp add: re_search_def)
  from search_from_Some [OF this]
  obtain st rest where m: "rx_match False date_time_regex t (s, []) = st # rest"
    and e: "e = fst st"
    by blast
  from date_time_regex_shape obtain r
    where r: "date_time_regex = Seq WordB (Seq (Seq Digit (Opt Digit)) r)"
    by blast
  from m have "st \<in> set (rx_match False (Seq WordB (Seq (Seq Digit (Opt Digit)) r)) t (s, []))"
    unfolding r by simp
  from seq_digit_progress [OF this] e have "s < e" "e \<le> length t"
    by simp_all
  then show ?thesis by (simp add: substring_def)
qed

lemma parse_datetime_all_fail:
  assumes "isl (strptime x ''%m/%d/%y, %I:%M %p'')"
    and "isl (strptime x ''%d/%m/%y, %I:%M %p'')"
    and "isl (strptime x ''%d/%m/%y, %H:%M'')"
  shows "\<exists>err. parse_datetime x = Inl err"
  using assms unfolding parse_datetime_def
  by (auto simp: isl_def)

lemma crop_one_no_timestamp:
  "re_search date_time_rx (ocr_text f) = None \<Longrightarrow>
     crop_one date_time_rx img_crop_end_rx f st = Inl AttributeError"
  by (simp add: crop_one_def Let_def re_findall_None)

lemma crop_one_no_terminator:
  "re_search img_crop_end_rx (ocr_text f) = None \<Longrightarrow>
     \<exists>err. crop_one date_time_rx img_crop_end_rx f st = Inl err"
  unfolding crop_one_def Let_def
  by (simp split: sum.splits option.splits)

lemma crop_one_parse_failure:
  assumes "re_search date_time_rx (ocr_text f) = Some (s, e)"
    and "substring (ocr_text f) s e \<noteq> []"
    and "parse_datetime (substring (ocr_text f) s e) = Inl err"
  shows "crop_one date_time_rx img_crop_end_rx f st = Inl err"
  using re_findall_Some [OF assms(1)] assms(2,3)
  by (simp add: crop_one_def Let_def)

lemma crop_one_appends:
  assumes "crop_one date_time_regex img_crop_end_rx f st = Inr st'"
  shows "\<exists>d. fst st' = fst st @ [(file_path f, d)]"
proof (cases "re_search date_time_regex (ocr_text f)")
  case None
  from crop_one_no_timestamp [OF this] assms show ?thesis by simp
next
  case (Some m)
  obtain s e where m: "m = (s, e)" by (cases m)
  from Some m have se: "re_search date_time_regex (ocr_text f) = Some (s, e)" by simp
  from date_time_match_nonempty [OF se] have ne: "substring (ocr_text f) s e \<noteq> []" .
  show ?thesis
  proof (cases "parse_datetime (substring (ocr_text f) s e)")
    case (Inl err)
    from crop_one_parse_failure [OF se ne Inl] assms show ?thesis by simp
  next
    case (Inr d)
    with assms re_findall_Some [OF se] ne have "fst st' = fst st @ [(file_path f, d)]"
      unfolding crop_one_def Let_def
      by (auto split: sum.splits option.splits)
    then show ?thesis by blast
  qed
qed

lemma crop_loop_aborts:
  assumes "\<And>st. \<exists>err. crop_one date_time_rx img_crop_end_rx f st = Inl err"
  shows "f \<in> set files \<Longrightarrow> \<exists>err. crop_loop date_time_rx img_crop_end_rx files st = Inl err"
proof (induction files arbitrary: st)
  case Nil
  then show ?case by simp
next
  case (Cons g rest)
  show ?case
  proof (cases "crop_one date_time_rx img_crop_end_rx g st")
    case (Inl err)
    then show ?thesis by simp
  next
    case (Inr st1)
    from assms [of st] Inr have "f \<noteq> g" by auto
    with Cons.prems have "f \<in> set rest" by simp
    from Cons.IH [OF this, of st1] Inr show ?thesis by simp
  qed
qed

lemma crop_loop_appends:
  "crop_loop date_time_regex img_crop_end_rx files st = Inr st' \<Longrightarrow>
     map fst (fst st') = map fst (fst st) @ map file_path files"
proof (induction files arbitrary: st)
  case Nil
  then show ?case by simp
next
  case (Cons g rest)
  from Cons.prems obtain st1 where g: "crop_one date_time_regex img_crop_end_rx g st = Inr st1"
    and r: "crop_loop date_time_regex img_crop_end_rx rest st1 = Inr st'"
    by (auto split: sum.splits)
  from crop_one_appends [OF g] obtain d where "fst st1 = fst st @ [(file_path g, d)]"
    by blast
  with Cons.IH [OF r] show ?case by simp
qed

lemma crop_img_n_get_date_Inl:
  "crop_loop date_time_rx img_crop_end_rx files ([], Map.empty) = Inl err \<Longrightarrow>
     crop_img_n_get_date date_time_rx img_crop_end_rx files = Inl err"
  by (simp add: crop_img_n_get_date_def)

lemma main_caller_Inl:
  "crop_img_n_get_date date_time_regex img_crop_end_regex files = Inl err \<Longrightarrow>
     main_caller files = Inl err"
  by (simp add: main_caller_def)

lemma crop_img_n_get_date_files:
  assumes "crop_img_n_get_date date_time_regex img_crop_end_rx files = Inr r"
  shows "mset (fst (snd (fst r))) = mset (map file_path files)"
proof -
  from assms obtain st where st: "crop_loop date_time_regex img_crop_end_rx files ([], Map.empty) = Inr st"
    and r: "fst (snd (fst r)) = map fst (sort_by_datetime (fst st))"
    unfolding crop_img_n_get_date_def Let_def
    by (auto split: sum.splits)
  from crop_loop_appends [OF st] have "map fst (fst st) = map file_path files"
    by simp
  moreover have "mset (map fst (sort_by_datetime (fst st))) = mset (map fst (fst st))"
    by (simp add: sort_by_datetime_def)
  ultimately show ?thesis using r by simp
qed

text \<open>
  C5. If the OCR text of some image of the directory has no match of the timestamp
  pattern, or no match of the terminator pattern, or a matched timestamp that fails all
  three formats, then the crop step ends with an error and so does the whole program: no
  later image is processed and no document is written. An image is never skipped: when
  the crop step completes, the sorted image list holds exactly the files of the directory.
\<close>

theorem bad_image_aborts_run:
  "(\<forall>f\<in>set files.
      re_search date_time_regex (ocr_text f) = None \<or>
      re_search img_crop_end_regex (ocr_text f) = None \<or>
      (\<exists>s e. re_search date_time_regex (ocr_text f) = Some (s, e) \<and>
         isl (strptime (substring (ocr_text f) s e) ''%m/%d/%y, %I:%M %p'') \<and>
         isl (strptime (substring (ocr_text f) s e) ''%d/%m/%y, %I:%M %p'') \<and>
         isl (strptime (substring (ocr_text f) s e) ''%d/%m/%y, %H:%M''))
      \<longrightarrow> (\<exists>err. crop_img_n_get_date date_time_regex img_crop_end_regex files = Inl err \<and>
                main_caller files = Inl err)) \<and>
   (\<forall>r. crop_img_n_get_date date_time_regex img_crop_end_regex files = Inr r
      \<longrightarrow> mset (fst (snd (fst r))) = mset (map file_path files))"
proof (intro conjI ballI impI allI)
  fix f
  assume f: "f \<in> set files"
  assume bad: "re_search date_time_regex (ocr_text f) = None \<or>
      re_search img_crop_end_regex (ocr_text f) = None \<or>
      (\<exists>s e. re_search date_time_regex (ocr_text f) = Some (s, e) \<and>
         isl (strptime (substring (ocr_text f) s e) ''%m/%d/%y, %I:%M %p'') \<and>
         isl (strptime (substring (ocr_text f) s e) ''%d/%m/%y, %I:%M %p'') \<and>
         isl (strptime (substring (ocr_text f) s e) ''%d/%m/%y, %H:%M''))"
  have one: "\<exists>err. crop_one date_time_regex img_crop_end_regex f st = Inl err" for st
    using bad
  proof (elim disjE exE conjE)
    assume "re_search date_time_regex (ocr_text f) = None"
    from crop_one_no_timestamp [OF this] show ?thesis by blast
  next
    assume "re_search img_crop_end_regex (ocr_text f) = None"
    then show ?thesis by (rule crop_one_no_terminator)
  next
    fix s e
    assume se: "re_search date_time_regex (ocr_text f) = Some (s, e)"
      and f1: "isl (strptime (substring (ocr_text f) s e) ''%m/%d/%y, %I:%M %p'')"
      and f2: "isl (strptime (substring (ocr_text f) s e) ''%d/%m/%y, %I:%M %p'')"
      and f3: "isl (strptime (substring (ocr_text f) s e) ''%d/%m/%y, %H:%M'')"
    from parse_datetime_all_fail [OF f1 f2 f3]
    obtain err where "parse_datetime (substring (ocr_text f) s e) = Inl err"
      by blast
    from crop_one_parse_failure [OF se date_time_match_nonempty [OF se] this]
    show ?thesis by blast
  qed
  from crop_loop_aborts [of date_time_regex img_crop_end_regex f, OF one f]
  obtain err where "crop_loop date_time_regex img_crop_end_regex files ([], Map.empty) = Inl err"
    by blast
  from crop_img_n_get_date_Inl [OF this]
  have c: "crop_img_n_get_date date_time_regex img_crop_end_regex files = Inl err" .
  from c main_caller_Inl [OF c]
  show "\<exists>err. crop_img_n_get_date date_time_regex img_crop_end_regex files = Inl err \<and>
                main_caller files = Inl err"
    by blast
next
  fix r
  assume "crop_img_n_get_date date_time_regex img_crop_end_regex files = Inr r"
  then show "mset (fst (snd (fst r))) = mset (map file_path files)"
    by (rule crop_img_n_get_date_files)
qed

lemma sample_searches:
  "re_search date_time_regex ''Thanks for riding, Sam'' = None"
  "re_search img_crop_end_regex ''1/2/22, 3:45 PM Thanks'' = None"
  "re_search date_time_regex ''13/13/22, 25:00 Your ride'' = Some (0, 15)"
  by code_simp+

text \<open>
  A word boundary needs a character that is not a word character next to the digit: a
  timestamp that follows an accented letter is not matched, one that follows a
  multiplication sign is, and a meridiem marker that an accented letter follows is left
  out of the match.
\<close>

lemma latin1_word_boundary:
  "re_search date_time_regex (CHR 0xE9 # ''1/2/22, 3:45 PM Your ride'') = None"
  "re_search date_time_regex (CHR 0xD7 # ''1/2/22, 3:45 PM Your ride'') = Some (1, 16)"
  "re_search date_time_regex (''1/2/22, 13:45 PM'' @ CHR 0xE9 # '' Your ride'') = Some (0, 13)"
  by code_simp+

lemma sample_parse_failure:
  "isl (strptime ''13/13/22, 25:00'' ''%m/%d/%y, %I:%M %p'')"
  "isl (strptime ''13/13/22, 25:00'' ''%d/%m/%y, %I:%M %p'')"
  "isl (strptime ''13/13/22, 25:00'' ''%d/%m/%y, %H:%M'')"
  by code_simp+

theorem bad_image_aborts_run_witness:
  "(\<exists>err. crop_img_n_get_date date_time_regex img_crop_end_regex
      [\<lparr>file_path = ''images/trip_image_1.jpg'', shape = (2000, 1000),
        ocr_text = ''1/2/22, 3:45 PM Your ride''\<rparr>,
       \<lparr>file_path = ''images/trip_image_2.jpg'', shape = (2000, 1000),
        ocr_text = ''Thanks for riding, Sam''\<rparr>] = Inl err \<and>
    main_caller
      [\<lparr>file_path = ''images/trip_image_1.jpg'', shape = (2000, 1000),
        ocr_text = ''1/2/22, 3:45 PM Your ride''\<rparr>,
       \<lparr>file_path = ''images/trip_image_2.jpg'', shape = (2000, 1000),
        ocr_text = ''Thanks for riding, Sam''\<rparr>] = Inl err) \<and>
   (\<exists>err. crop_img_n_get_date date_time_regex img_crop_end_regex
      [\<lparr>file_path = ''images/trip_image_1.jpg'', shape = (2000, 1000),
        ocr_text = ''1/2/22, 3:45 PM Your ride''\<rparr>,
       \<lparr>file_path = ''images/trip_image_2.jpg'', shape = (2000, 1000),
        ocr_text = ''1/2/22, 3:45 PM Thanks''\<rparr>] = Inl err \<and>
    main_caller
      [\<lparr>file_path = ''images/trip_image_1.jpg'', shape = (2000, 1000),
        ocr_text = ''1/2/22, 3:45 PM Your ride''\<rparr>,
       \<lparr>file_path = ''images/trip_image_2.jpg'', shape = (2000, 1000),
        ocr_text = ''1/2/22, 3:45 PM Thanks''\<rparr>] = Inl err) \<and>
   (\<exists>err. crop_img_n_get_date date_time_regex img_crop_end_regex
      [\<lparr>file_path = ''images/trip_image_1.jpg'', shape = (2000, 1000),
        ocr_text = ''1/2/22, 3:45 PM Your ride''\<rparr>,
       \<lparr>file_path = ''images/trip_image_2.jpg'', shape = (2000, 1000),
        ocr_text = ''13/13/22, 25:00 Your ride''\<rparr>] = Inl err \<and>
    main_caller
      [\<lparr>file_path = ''images/trip_image_1.jpg'', shape = (2000, 1000),
        ocr_text = ''1/2/22, 3:45 PM Your ride''\<rparr>,
       \<lparr>file_path = ''images/trip_image_2.jpg'', shape = (2000, 1000),
        ocr_text = ''13/13/22, 25:00 Your ride''\<rparr>] = Inl err) \<and>
   (\<exists>err. crop_img_n_get_date date_time_regex img_crop_end_regex
      [\<lparr>file_path = ''images/trip_image_1.jpg'', shape = (2000, 1000),
        ocr_text = ''1/2/22, 3:45 PM Your ride''\<rparr>,
       \<lparr>file_path = ''images/trip_image_2.jpg'', shape = (2000, 1000),
        ocr_text = CHR 0xE9 # ''1/2/22, 3:45 PM Your ride''\<rparr>] = Inl err \<and>
    main_caller
      [\<lparr>file_path = ''images/trip_image_1.jpg'', shape = (2000, 1000),
        ocr_text = ''1/2/22, 3:45 PM Your ride''\<rparr>,
       \<lparr>file_path = ''images/trip_image_2.jpg'', shape = (2000, 1000),
        ocr_text = CHR 0xE9 # ''1/2/22, 3:45 PM Your ride''\<rparr>] = Inl err)"
proof -
  have m0: "\<lparr>file_path = ''images/trip_image_2.jpg'', shape = (2000, 1000),
        ocr_text = ''Thanks for riding, Sam''\<rparr>
      \<in> set [\<lparr>file_path = ''images/trip_image_1.jpg'', shape = (2000, 1000),
        ocr_text = ''1/2/22, 3:45 PM Your ride''\<rparr>,
       \<lparr>file_path = ''images/trip_image_2.jpg'', shape = (2000, 1000),
        ocr_text = ''Thanks for riding, Sam''\<rparr>]"
    by simp
  have m1: "\<lparr>file_path = ''images/trip_image_2.jpg'', shape = (2000, 1000),
        ocr_text = ''1/2/22, 3:45 PM Thanks''\<rparr>
      \<in> set [\<lparr>file_path = ''images/trip_image_1.jpg'', shape = (2000, 1000),
        ocr_text = ''1/2/22, 3:45 PM Your ride''\<rparr>,
       \<lparr>file_path = ''images/trip_image_2.jpg'', shape = (2000, 1000),
        ocr_text = ''1/2/22, 3:45 PM Thanks''\<rparr>]"
    by simp
  have m2: "\<lparr>file_path = ''images/trip_image_2.jpg'', shape = (2000, 1000),
        ocr_text = ''13/13/22, 25:00 Your ride''\<rparr>
      \<in> set [\<lparr>file_path = ''images/trip_image_1.jpg'', shape = (2000, 1000),
        ocr_text = ''1/2/22, 3:45 PM Your ride''\<rparr>,
       \<lparr>file_path = ''images/trip_image_2.jpg'', shape = (2000, 1000),
        ocr_text = ''13/13/22, 25:00 Your ride''\<rparr>]"
    by simp
  have m3: "\<lparr>file_path = ''images/trip_image_2.jpg'', shape = (2000, 1000),
        ocr_text = CHR 0xE9 # ''1/2/22, 3:45 PM Your ride''\<rparr>
      \<in> set [\<lparr>file_path = ''images/trip_image_1.jpg'', shape = (2000, 1000),
        ocr_text = ''1/2/22, 3:45 PM Your ride''\<rparr>,
       \<lparr>file_path = ''images/trip_image_2.jpg'', shape = (2000, 1000),
        ocr_text = CHR 0xE9 # ''1/2/22, 3:45 PM Your ride''\<rparr>]"
    by simp
  have b0: "re_search date_time_regex (ocr_text \<lparr>file_path = ''images/trip_image_2.jpg'', shape = (2000, 1000),
        ocr_text = ''Thanks for riding, Sam''\<rparr>) = None \<or>
      re_search img_crop_end_regex (ocr_text \<lparr>file_path = ''images/trip_image_2.jpg'', shape = (2000, 1000),
        ocr_text = ''Thanks for riding, Sam''\<rparr>) = None \<or>
      (\<exists>s e. re_search date_time_regex (ocr_text \<lparr>file_path = ''images/trip_image_2.jpg'', shape = (2000, 1000),
        ocr_text = ''Thanks for riding, Sam''\<rparr>) = Some (s, e) \<and>
         isl (strptime (substring (ocr_text \<lparr>file_path = ''images/trip_image_2.jpg'', shape = (2000, 1000),
        ocr_text = ''Thanks for riding, Sam''\<rparr>) s e) ''%m/%d/%y, %I:%M %p'') \<and>
         isl (strptime (substring (ocr_text \<lparr>file_path = ''images/trip_image_2.jpg'', shape = (2000, 1000),
        ocr_text = ''Thanks for riding, Sam''\<rparr>) s e) ''%d/%m/%y, %I:%M %p'') \<and>
         isl (strptime (substring (ocr_text \<lparr>file_path = ''images/trip_image_2.jpg'', shape = (2000, 1000),
        ocr_text = ''Thanks for riding, Sam''\<rparr>) s e) ''%d/%m/%y, %H:%M''))"
    by (simp add: sample_searches)
  have b1: "re_search date_time_regex (ocr_text \<lparr>file_path = ''images/trip_image_2.jpg'', shape = (2000, 1000),
        ocr_text = ''1/2/22, 3:45 PM Thanks''\<rparr>) = None \<or>
      re_search img_crop_end_regex (ocr_text \<lparr>file_path = ''images/trip_image_2.jpg'', shape = (2000, 1000),
        ocr_text = ''1/2/22, 3:45 PM Thanks''\<rparr>) = None \<or>
      (\<exists>s e. re_search date_time_regex (ocr_text \<lparr>file_path = ''images/trip_image_2.jpg'', shape = (2000, 1000),
        ocr_text = ''1/2/22, 3:45 PM Thanks''\<rparr>) = Some (s, e) \<and>
         isl (strptime (substring (ocr_text \<lparr>file_path = ''images/trip_image_2.jpg'', shape = (2000, 1000),
        ocr_text = ''1/2/22, 3:45 PM Thanks''\<rparr>) s e) ''%m/%d/%y, %I:%M %p'') \<and>
         isl (strptime (substring (ocr_text \<lparr>file_path = ''images/trip_image_2.jpg'', shape = (2000, 1000),
        ocr_text = ''1/2/22, 3:45 PM Thanks''\<rparr>) s e) ''%d/%m/%y, %I:%M %p'') \<and>
         isl (strptime (substring (ocr_text \<lparr>file_path = ''images/trip_image_2.jpg'', shape = (2000, 1000),
        ocr_text = ''1/2/22, 3:45 PM Thanks''\<rparr>) s e) ''%d/%m/%y, %H:%M''))"
    by (simp add: sample_searches)
  have sub: "substring ''13/13/22, 25:00 Your ride'' 0 15 = ''13/13/22, 25:00''"
    by (simp add: substring_def)
  have b2: "re_search date_time_regex (ocr_text \<lparr>file_path = ''images/trip_image_2.jpg'', shape = (2000, 1000),
        ocr_text = ''13/13/22, 25:00 Your ride''\<rparr>) = None \<or>
      re_search img_crop_end_regex (ocr_text \<lparr>file_path = ''images/trip_image_2.jpg'', shape = (2000, 1000),
        ocr_text = ''13/13/22, 25:00 Your ride''\<rparr>) = None \<or>
      (\<exists>s e. re_search date_time_regex (ocr_text \<lparr>file_path = ''images/trip_image_2.jpg'', shape = (2000, 1000),
        ocr_text = ''13/13/22, 25:00 Your ride''\<rparr>) = Some (s, e) \<and>
         isl (strptime (substring (ocr_text \<lparr>file_path = ''images/trip_image_2.jpg'', shape = (2000, 1000),
        ocr_text = ''13/13/22, 25:00 Your ride''\<rparr>) s e) ''%m/%d/%y, %I:%M %p'') \<and>
         isl (strptime (substring (ocr_text \<lparr>file_path = ''images/trip_image_2.jpg'', shape = (2000, 1000),
        ocr_text = ''13/13/22, 25:00 Your ride''\<rparr>) s e) ''%d/%m/%y, %I:%M %p'') \<and>
         isl (strptime (substring (ocr_text \<lparr>file_path = ''images/trip_image_2.jpg'', shape = (2000, 1000),
        ocr_text = ''13/13/22, 25:00 Your ride''\<rparr>) s e) ''%d/%m/%y, %H:%M''))"
    by (simp add: sample_searches sub sample_parse_failure)
  have b3: "re_search date_time_regex (ocr_text \<lparr>file_path = ''images/trip_image_2.jpg'', shape = (2000, 1000),
        ocr_text = CHR 0xE9 # ''1/2/22, 3:45 PM Your ride''\<rparr>) = None \<or>
      re_search img_crop_end_regex (ocr_text \<lparr>file_path = ''images/trip_image_2.jpg'', shape = (2000, 1000),
        ocr_text = CHR 0xE9 # ''1/2/22, 3:45 PM Your ride''\<rparr>) = None \<or>
      (\<exists>s e. re_search date_time_regex (ocr_text \<lparr>file_path = ''images/trip_image_2.jpg'', shape = (2000, 1000),
        ocr_text = CHR 0xE9 # ''1/2/22, 3:45 PM Your ride''\<rparr>) = Some (s, e) \<and>
         isl (strptime (substring (ocr_text \<lparr>file_path = ''images/trip_image_2.jpg'', shape = (2000, 1000),
        ocr_text = CHR 0xE9 # ''1/2/22, 3:45 PM Your ride''\<rparr>) s e) ''%m/%d/%y, %I:%M %p'') \<and>
         isl (strptime (substring (ocr_text \<lparr>file_path = ''images/trip_image_2.jpg'', shape = (2000, 1000),
        ocr_text = CHR 0xE9 # ''1/2/22, 3:45 PM Your ride''\<rparr>) s e) ''%d/%m/%y, %I:%M %p'') \<and>
         isl (strptime (substring (ocr_text \<lparr>file_path = ''images/trip_image_2.jpg'', shape = (2000, 1000),
        ocr_text = CHR 0xE9 # ''1/2/22, 3:45 PM Your ride''\<rparr>) s e) ''%d/%m/%y, %H:%M''))"
    by (simp add: latin1_word_boundary)
  show ?thesis
    by (intro conjI
          bad_image_aborts_run [THEN conjunct1, rule_format, OF m0 b0]
          bad_image_aborts_run [THEN conjunct1, rule_format, OF m1 b1]
          bad_image_aborts_run [THEN conjunct1, rule_format, OF m2 b2]
          bad_image_aborts_run [THEN conjunct1, rule_format, OF m3 b3])
qed

text \<open>
  The files of a directory have distinct paths, and so have the entries that the crop
  step hands to \<^verbatim>\<open>create_pdf\<close>.
\<close>

lemma crop_img_n_get_date_distinct:
  assumes "crop_img_n_get_date date_time_regex img_crop_end_rx files = Inr r"
    and "distinct (map file_path files)"
  shows "distinct (fst (snd (fst r)))" and "fst (snd (fst r)) = map fst (fst (fst r))"
proof -
  from crop_img_n_get_date_files [OF assms(1)] assms(2)
  show "distinct (fst (snd (fst r)))"
    by (metis mset_eq_imp_distinct_iff)
  from assms(1) show "fst (snd (fst r)) = map fst (fst (fst r))"
    unfolding crop_img_n_get_date_def Let_def
    by (auto split: sum.splits)
qed

end
